theory Spec2Isabelle
  imports Main
begin

section \<open>Python strings\<close>

text \<open>
  A Python \<open>str\<close> is a sequence of Unicode code points; display names, titles and the
  stored participants column are such strings. A string is modelled as the list of its code
  points, so that \<open>length\<close>, \<open>split\<close> and \<open>strip\<close> count what Python counts.
  \<open>ustr\<close> reads an ASCII literal as such a string.
\<close>

type_synonym ustring = "nat list"

definition ustr :: "string \<Rightarrow> ustring" where
  "ustr s = map of_char s"

text \<open>The code points that \<open>str.strip()\<close> removes (those with \<open>str.isspace()\<close>).\<close>

definition isspace :: "nat \<Rightarrow> bool" where
  "isspace c \<longleftrightarrow>
     (9 \<le> c \<and> c \<le> 13) \<or> (28 \<le> c \<and> c \<le> 32) \<or> c = 133 \<or> c = 160 \<or> c = 5760 \<or>
     (8192 \<le> c \<and> c \<le> 8202) \<or> c = 8232 \<or> c = 8233 \<or> c = 8239 \<or> c = 8287 \<or> c = 12288"

definition py_strip :: "ustring \<Rightarrow> ustring" where
  "py_strip s = rev (dropWhile isspace (rev (dropWhile isspace s)))"

text \<open>
  \<open>s.split(sep)\<close> for a one-character separator: \<open>"".split(",") == [""]\<close>. A character
  other than the separator extends the first piece of the split of the rest, which always
  has a first piece.
\<close>

fun py_split :: "nat \<Rightarrow> ustring \<Rightarrow> ustring list" where
  "py_split sep [] = [[]]"
| "py_split sep (x # xs) =
     (if x = sep then [] # py_split sep xs
      else (case py_split sep xs of
              [] \<Rightarrow> [[x]]
            | p # ps \<Rightarrow> (x # p) # ps))"

text \<open>\<open>sep.join(lst)\<close>.\<close>

fun py_join :: "ustring \<Rightarrow> ustring list \<Rightarrow> ustring" where
  "py_join sep [] = []"
| "py_join sep [x] = x"
| "py_join sep (x # y # ys) = x @ sep @ py_join sep (y # ys)"

text \<open>
  \<^verbatim>\<open>
  def names_to_list(s: str | None) -> list[str]:
      if not s:
          return []
      return [x.strip() for x in s.split(",") if x.strip()]

  def list_to_names(lst: list[str]) -> str:
      return ", ".join(lst)
  \<close>
  Code point 44 is the comma, 32 the space, 124 the vertical bar.
\<close>

fun names_to_list :: "ustring option \<Rightarrow> ustring list" where
  "names_to_list None = []"
| "names_to_list (Some s) =
     (if s = [] then [] else filter (\<lambda>x. x \<noteq> []) (map py_strip (py_split 44 s)))"

definition list_to_names :: "ustring list \<Rightarrow> ustring" where
  "list_to_names lst = py_join [44, 32] lst"

text \<open>Properties of a name: no leading or trailing whitespace; no comma; not empty.\<close>

definition trimmed :: "ustring \<Rightarrow> bool" where
  "trimmed n \<longleftrightarrow> (n = [] \<or> (\<not> isspace (hd n) \<and> \<not> isspace (last n)))"

definition plain_name :: "ustring \<Rightarrow> bool" where
  "plain_name n \<longleftrightarrow> 44 \<notin> set n \<and> trimmed n"

definition clean_name :: "ustring \<Rightarrow> bool" where
  "clean_name n \<longleftrightarrow> n \<noteq> [] \<and> plain_name n"


section \<open>The events table\<close>

text \<open>
  A \<open>datetime\<close> is modelled by its reading in microseconds since the epoch: an aware one by
  the instant it denotes, a wall-clock one by what the clock shows. A \<open>datetime\<close> lies in
  the years 1 to 9999, from \<open>datetime.min\<close> to \<open>datetime.max\<close>; arithmetic that leaves this
  range raises \<open>OverflowError\<close>. The column \<open>event_time_utc\<close> holds the ISO text of an
  instant or NULL, and the model keeps the instant; an instant outside the range stands for
  a text that is no \<open>datetime\<close>, on which \<open>datetime.fromisoformat\<close> raises. Columns that the
  code reads with a guard against NULL are options.
\<close>

type_synonym instant = int

definition min_datetime :: int where
  "min_datetime = - 62135596800000000"

definition max_datetime :: int where
  "max_datetime = 253402300799999999"

definition datetime_ok :: "int \<Rightarrow> bool" where
  "datetime_ok t \<longleftrightarrow> min_datetime \<le> t \<and> t \<le> max_datetime"

record event =
  channel_id :: "int option"
  title :: ustring
  proposer :: ustring
  manager :: "ustring option"
  participants :: "ustring option"
  note_text :: ustring
  location :: "ustring option"
  event_time_utc :: "instant option"
  remind_minutes :: "int option"
  reminded :: int

text \<open>
  The table in rowid order, and the counter that \<open>AUTOINCREMENT\<close> keeps in
  \<open>sqlite_sequence\<close>: the largest rowid the table has ever held. The engine is taken to
  work: a statement fails only where that is said below.
\<close>

record store =
  rows :: "(int \<times> event) list"
  sqlite_sequence :: int

definition init_db :: store where
  "init_db = \<lparr>rows = [], sqlite_sequence = 0\<rparr>"

definition max_rowid :: int where
  "max_rowid = 9223372036854775807"

definition ids :: "store \<Rightarrow> int list" where
  "ids db = map fst (rows db)"

text \<open>\<open>SELECT ... WHERE id = ?\<close> followed by \<open>fetchone()\<close>.\<close>

definition fetchone :: "store \<Rightarrow> int \<Rightarrow> event option" where
  "fetchone db i = map_of (rows db) i"

text \<open>\<open>UPDATE events SET ... WHERE id = ?\<close>.\<close>

definition update_where_id :: "(event \<Rightarrow> event) \<Rightarrow> int \<Rightarrow> store \<Rightarrow> store" where
  "update_where_id f i db =
     db\<lparr>rows := map (\<lambda>(j, r). if j = i then (j, f r) else (j, r)) (rows db)\<rparr>"

text \<open>\<open>DELETE FROM events WHERE id = ?\<close>.\<close>

definition delete_where_id :: "int \<Rightarrow> store \<Rightarrow> store" where
  "delete_where_id i db = db\<lparr>rows := filter (\<lambda>(j, r). j \<noteq> i) (rows db)\<rparr>"

text \<open>
  \<open>INSERT\<close> into a table whose key is \<open>INTEGER PRIMARY KEY AUTOINCREMENT\<close>: the new
  rowid is one more than the largest rowid ever used, and the insert fails (the table is
  full) once that was the largest 64-bit rowid. The result is \<open>lastrowid\<close> and the new
  store.
\<close>

definition insert_event :: "event \<Rightarrow> store \<Rightarrow> (int \<times> store) option" where
  "insert_event r db =
     (if sqlite_sequence db \<ge> max_rowid then None
      else Some (sqlite_sequence db + 1,
                 \<lparr>rows = rows db @ [(sqlite_sequence db + 1, r)],
                  sqlite_sequence = sqlite_sequence db + 1\<rparr>))"

text \<open>
  The invariant that SQLite keeps for such a table: rowids are unique, and none exceeds
  the counter.
\<close>

definition wf_store :: "store \<Rightarrow> bool" where
  "wf_store db \<longleftrightarrow> distinct (ids db) \<and> list_all (\<lambda>i. i \<le> sqlite_sequence db) (ids db)"


section \<open>Commands\<close>

text \<open>
  What a handler reads from its invocation context \<open>ctx\<close>: whether \<open>ctx.channel\<close> is
  messageable, \<open>ctx.channel.id\<close>, \<open>ctx.author.display_name\<close>, and whether the author has
  the \<open>manage_guild\<close> or \<open>administrator\<close> permission. Outside a guild the author has no
  \<open>guild_permissions\<close> at all, and reading them raises: that is \<open>None\<close>.
\<close>

record ctx =
  channel_messageable :: bool
  ctx_channel_id :: int
  display_name :: ustring
  guild_perms :: "bool option"

text \<open>
  Each handler answers with one message; the model keeps which one. \<open>CommandError\<close> stands
  for a handler that raised before it answered.
\<close>

datatype reply =
    NotInChannel | Usage | BadTime | Created int | StoreFull
  | NotFound
  | AlreadyMember | Joined
  | NotMember | Left bool
  | NotAParticipant | ManagerSet ustring
  | NeedId | NoParticipants
  | NoteUpdated
  | OutOfRange | ReminderSet
  | Denied | NeedConfirm | Deleted
  | CommandError

text \<open>
  \<^verbatim>\<open>
  def parse_local_time(s: str) -> datetime:
      dt = datetime.strptime(s.strip(), "%Y-%m-%d %H:%M")
      return dt.replace(tzinfo=TAIPEI)
  \<close>
  \<open>datetime.strptime\<close> belongs to the standard library; it is a parameter \<open>strptime\<close>
  that gives the wall-clock reading in microseconds, or \<open>None\<close> where Python raises
  \<open>ValueError\<close>, as it does for every reading outside the years 1 to 9999. The result is
  the reading of the Taipei clock.
\<close>

definition parse_local_time :: "(ustring \<Rightarrow> int option) \<Rightarrow> ustring \<Rightarrow> int option" where
  "parse_local_time strptime s =
     (case strptime (py_strip s) of
        None \<Rightarrow> None
      | Some dt \<Rightarrow> if datetime_ok dt then Some dt else None)"

text \<open>
  \<open>dt_local.astimezone(timezone.utc)\<close> for a Taipei time: Taipei is eight hours ahead of
  UTC, the conversion subtracts the offset, and it raises \<open>OverflowError\<close>, here \<open>None\<close>,
  when the result is before \<open>datetime.min\<close>.
\<close>

definition astimezone_utc :: "int \<Rightarrow> instant option" where
  "astimezone_utc dt_local =
     (if datetime_ok (dt_local - 8 * 3600 * 1000000) then Some (dt_local - 8 * 3600 * 1000000)
      else None)"

text \<open>
  The fields of a payload: \<open>[p.strip() for p in payload.split("|")]\<close>. In \<open>create_event\<close>
  the conversion of the parsed time to UTC is outside the \<open>try\<close> that catches the
  \<open>ValueError\<close> of the parser: when it raises, the handler raises and nothing is inserted.
\<close>

definition payload_parts :: "ustring \<Rightarrow> ustring list" where
  "payload_parts payload = map py_strip (py_split 124 payload)"

definition create_event ::
  "(ustring \<Rightarrow> int option) \<Rightarrow> ctx \<Rightarrow> ustring option \<Rightarrow> store \<Rightarrow> reply \<times> store" where
  "create_event strptime c payload db =
     (if \<not> channel_messageable c then (NotInChannel, db)
      else case payload of
        None \<Rightarrow> (Usage, db)
      | Some p \<Rightarrow>
          if p = [] then (Usage, db)
          else
            let parts = payload_parts p in
            if length parts < 3 then (Usage, db)
            else
              let ttl = parts ! 0; time_str = parts ! 1; loc = parts ! 2;
                  nt = (if length parts \<ge> 4 then parts ! 3 else [])
              in case parse_local_time strptime time_str of
                   None \<Rightarrow> (BadTime, db)
                 | Some dt_local \<Rightarrow>
                     (case astimezone_utc dt_local of
                        None \<Rightarrow> (CommandError, db)
                      | Some dt_utc \<Rightarrow>
                          let prop = display_name c; mgr = prop; ps = [prop]
                          in case insert_event
                                    \<lparr>channel_id = Some (ctx_channel_id c), title = ttl,
                                     proposer = prop, manager = Some mgr,
                                     participants = Some (list_to_names ps), note_text = nt,
                                     location = Some loc, event_time_utc = Some dt_utc,
                                     remind_minutes = Some 30, reminded = 0\<rparr> db of
                               None \<Rightarrow> (StoreFull, db)
                             | Some (event_id, db') \<Rightarrow> (Created event_id, db')))"

definition join_event :: "ctx \<Rightarrow> int \<Rightarrow> store \<Rightarrow> reply \<times> store" where
  "join_event c event_id db =
     (let member_name = display_name c
      in case fetchone db event_id of
           None \<Rightarrow> (NotFound, db)
         | Some row \<Rightarrow>
             let parts = names_to_list (participants row)
             in if member_name \<in> set parts then (AlreadyMember, db)
                else (Joined,
                      update_where_id
                        (\<lambda>r. r\<lparr>participants := Some (list_to_names (parts @ [member_name]))\<rparr>)
                        event_id db))"

definition leave_event :: "ctx \<Rightarrow> int \<Rightarrow> store \<Rightarrow> reply \<times> store" where
  "leave_event c event_id db =
     (case fetchone db event_id of
        None \<Rightarrow> (NotFound, db)
      | Some row \<Rightarrow>
          let parts = names_to_list (participants row); name = display_name c
          in if name \<notin> set parts then (NotMember, db)
             else
               let parts' = filter (\<lambda>p. p \<noteq> name) parts;
                   new_manager = (if Some name = manager row then None else manager row)
               in (Left (new_manager = None),
                   update_where_id
                     (\<lambda>r. r\<lparr>participants := Some (list_to_names parts'),
                             manager := new_manager\<rparr>)
                     event_id db))"

definition set_manager :: "ctx \<Rightarrow> int \<Rightarrow> ustring \<Rightarrow> store \<Rightarrow> reply \<times> store" where
  "set_manager c event_id who db =
     (case fetchone db event_id of
        None \<Rightarrow> (NotFound, db)
      | Some row \<Rightarrow>
          let parts = names_to_list (participants row)
          in if who \<notin> set parts then (NotAParticipant, db)
             else (ManagerSet who, update_where_id (\<lambda>r. r\<lparr>manager := Some who\<rparr>) event_id db))"

text \<open>
  \<open>random.choice(parts)\<close> returns some element of a non-empty list; the draw is the
  argument \<open>rnd\<close>, read as an index.
\<close>

definition random_manager :: "ctx \<Rightarrow> int option \<Rightarrow> nat \<Rightarrow> store \<Rightarrow> reply \<times> store" where
  "random_manager c event_id rnd db =
     (case event_id of
        None \<Rightarrow> (NeedId, db)
      | Some i \<Rightarrow>
          (case fetchone db i of
             None \<Rightarrow> (NotFound, db)
           | Some row \<Rightarrow>
               let parts = names_to_list (participants row)
               in if parts = [] then (NoParticipants, db)
                  else
                    let who = parts ! (rnd mod length parts)
                    in (ManagerSet who, update_where_id (\<lambda>r. r\<lparr>manager := Some who\<rparr>) i db)))"

definition add_note :: "ctx \<Rightarrow> int \<Rightarrow> ustring \<Rightarrow> store \<Rightarrow> reply \<times> store" where
  "add_note c event_id nt db =
     (case fetchone db event_id of
        None \<Rightarrow> (NotFound, db)
      | Some row \<Rightarrow> (NoteUpdated, update_where_id (\<lambda>r. r\<lparr>note_text := nt\<rparr>) event_id db))"

definition set_reminder :: "ctx \<Rightarrow> int \<Rightarrow> int \<Rightarrow> store \<Rightarrow> reply \<times> store" where
  "set_reminder c event_id minutes db =
     (if minutes < 0 \<or> minutes > 24 * 60 then (OutOfRange, db)
      else case fetchone db event_id of
             None \<Rightarrow> (NotFound, db)
           | Some row \<Rightarrow>
               (ReminderSet,
                update_where_id (\<lambda>r. r\<lparr>remind_minutes := Some minutes, reminded := 0\<rparr>)
                  event_id db))"

definition delete_event :: "ctx \<Rightarrow> int \<Rightarrow> ustring option \<Rightarrow> store \<Rightarrow> reply \<times> store" where
  "delete_event c event_id confirm db =
     (case fetchone db event_id of
        None \<Rightarrow> (NotFound, db)
      | Some row \<Rightarrow>
          let display = display_name c;
              is_owner = (display = proposer row \<or> Some display = manager row)
          in case guild_perms c of
               None \<Rightarrow> (CommandError, db)
             | Some perms \<Rightarrow>
                 if \<not> (is_owner \<or> perms) then (Denied, db)
                 else if confirm \<noteq> Some (ustr ''confirm'') then (NeedConfirm, db)
                 else (Deleted, delete_where_id event_id db))"

text \<open>A command is one invocation of a handler; a session runs commands in order.\<close>

datatype command =
    CreateEvent ctx "ustring option"
  | JoinEvent ctx int
  | LeaveEvent ctx int
  | SetManager ctx int ustring
  | RandomManager ctx "int option" nat
  | AddNote ctx int ustring
  | SetReminder ctx int int
  | DeleteEvent ctx int "ustring option"

fun exec :: "(ustring \<Rightarrow> int option) \<Rightarrow> command \<Rightarrow> store \<Rightarrow> reply \<times> store" where
  "exec sp (CreateEvent c payload) db = create_event sp c payload db"
| "exec sp (JoinEvent c i) db = join_event c i db"
| "exec sp (LeaveEvent c i) db = leave_event c i db"
| "exec sp (SetManager c i who) db = set_manager c i who db"
| "exec sp (RandomManager c i rnd) db = random_manager c i rnd db"
| "exec sp (AddNote c i nt) db = add_note c i nt db"
| "exec sp (SetReminder c i m) db = set_reminder c i m db"
| "exec sp (DeleteEvent c i confirm) db = delete_event c i confirm db"

fun run :: "(ustring \<Rightarrow> int option) \<Rightarrow> command list \<Rightarrow> store \<Rightarrow> reply list \<times> store" where
  "run sp [] db = ([], db)"
| "run sp (c # cs) db =
     (case exec sp c db of
        (r, db1) \<Rightarrow> (case run sp cs db1 of (rs, db2) \<Rightarrow> (r # rs, db2)))"

fun created_ids :: "reply list \<Rightarrow> int list" where
  "created_ids [] = []"
| "created_ids (Created i # rs) = i # created_ids rs"
| "created_ids (r # rs) = created_ids rs"

text \<open>The participants of an event as the handlers read them, and its manager.\<close>

definition participants_of :: "store \<Rightarrow> int \<Rightarrow> ustring list" where
  "participants_of db i =
     (case fetchone db i of None \<Rightarrow> [] | Some row \<Rightarrow> names_to_list (participants row))"

definition manager_of :: "store \<Rightarrow> int \<Rightarrow> ustring option" where
  "manager_of db i = (case fetchone db i of None \<Rightarrow> None | Some row \<Rightarrow> manager row)"


section \<open>The reminder loop\<close>

text \<open>
  \<open>bot.get_channel(id)\<close> gives a channel object or \<open>None\<close>. Of a channel the loop uses its
  class, for \<open>is_messageable\<close>, and \<open>send\<close>, which returns or raises.
\<close>

datatype chan_kind = TextChannel | Thread | DMChannel | OtherChannel

record channel =
  kind :: chan_kind
  send_raises :: bool

type_synonym bot = "int \<Rightarrow> channel option"

fun is_messageable :: "channel option \<Rightarrow> bool" where
  "is_messageable None = False"
| "is_messageable (Some ch) = (kind ch = TextChannel \<or> kind ch = Thread \<or> kind ch = DMChannel)"

text \<open>Python's \<open>x or d\<close> on an integer column: \<open>None\<close> and \<open>0\<close> are both falsy.\<close>

definition or_default :: "int option \<Rightarrow> int \<Rightarrow> int" where
  "or_default x d = (case x of None \<Rightarrow> d | Some v \<Rightarrow> if v = 0 then d else v)"

text \<open>
  \<open>event_dt_utc - timedelta(minutes=(row["remind_minutes"] or 30))\<close>. The subtraction raises
  \<open>OverflowError\<close>, here \<open>None\<close>, when the result is no \<open>datetime\<close>; minutes too many for a
  \<open>timedelta\<close> raise the same error, and their result is out of the range as well.
\<close>

definition remind_at :: "event \<Rightarrow> instant \<Rightarrow> instant option" where
  "remind_at row event_dt_utc =
     (if datetime_ok (event_dt_utc - or_default (remind_minutes row) 30 * 60000000)
      then Some (event_dt_utc - or_default (remind_minutes row) 30 * 60000000)
      else None)"

text \<open>
  \<^verbatim>\<open>
  def fmt_dt_local(iso_utc: str | None) -> str:
      if not iso_utc:
          return "..."
      return datetime.fromisoformat(iso_utc).astimezone(TAIPEI).strftime("%Y-%m-%d %H:%M")
  \<close>
  The text that it returns plays no part here; the conversion to Taipei time adds eight
  hours and raises \<open>OverflowError\<close> when the result is after \<open>datetime.max\<close>.
\<close>

definition fmt_dt_local_raises :: "instant option \<Rightarrow> bool" where
  "fmt_dt_local_raises iso_utc =
     (case iso_utc of None \<Rightarrow> False | Some t \<Rightarrow> \<not> datetime_ok (t + 8 * 3600 * 1000000))"

text \<open>
  \<open>bot.get_channel(row["channel_id"]) if row["channel_id"] else None\<close>: a NULL or zero
  channel id is falsy.
\<close>

definition resolve_channel :: "bot \<Rightarrow> event \<Rightarrow> channel option" where
  "resolve_channel b row =
     (case channel_id row of None \<Rightarrow> None | Some cid \<Rightarrow> if cid = 0 then None else b cid)"

text \<open>Whether \<open>await chan.send(...)\<close> raises; it is only called on a channel object.\<close>

definition send_fails :: "channel option \<Rightarrow> bool" where
  "send_fails chan = (case chan of None \<Rightarrow> False | Some ch \<Rightarrow> send_raises ch)"

text \<open>\<open>UPDATE events SET reminded = 1 WHERE id = ?\<close>.\<close>

definition mark_reminded :: "int \<Rightarrow> store \<Rightarrow> store" where
  "mark_reminded i db = update_where_id (\<lambda>r. r\<lparr>reminded := 1\<rparr>) i db"

text \<open>
  What one pass of the loop does to the sink, per event: \<open>chan.send\<close> returned,
  \<open>chan.send\<close> raised, or the channel was not messageable and the send was skipped.
\<close>

datatype sink_event = Sent int | SendRaised int | Skipped int

text \<open>
  The body of \<open>for row in rows\<close>, over the rows fetched at the start of the pass. An
  exception leaves the loop body: the \<open>UPDATE\<close> of that row and the remaining rows are not
  reached. It is raised by \<open>fromisoformat\<close> on a text that is no \<open>datetime\<close>, by the
  subtraction of the offset, by \<open>fmt_dt_local\<close> while the message is put together, which
  is before \<open>send\<close> is called, or by \<open>send\<close>. The result is the log, the store, and whether
  the pass ended by an exception.
\<close>

fun reminder_rows ::
  "instant \<Rightarrow> bot \<Rightarrow> (int \<times> event) list \<Rightarrow> store \<Rightarrow> sink_event list \<times> store \<times> bool" where
  "reminder_rows now_utc b [] db = ([], db, False)"
| "reminder_rows now_utc b ((i, row) # rest) db =
     (case event_time_utc row of
        None \<Rightarrow> reminder_rows now_utc b rest db
      | Some event_dt_utc \<Rightarrow>
          if \<not> datetime_ok event_dt_utc then ([], db, True)
          else
            (case remind_at row event_dt_utc of
               None \<Rightarrow> ([], db, True)
             | Some at \<Rightarrow>
                 if now_utc \<ge> at then
                   let chan = resolve_channel b row
                   in if is_messageable chan then
                        (if fmt_dt_local_raises (event_time_utc row) then ([], db, True)
                         else if send_fails chan then ([SendRaised i], db, True)
                         else
                           (case reminder_rows now_utc b rest (mark_reminded i db) of
                              (log, db', raised) \<Rightarrow> (Sent i # log, db', raised)))
                      else
                        (case reminder_rows now_utc b rest (mark_reminded i db) of
                           (log, db', raised) \<Rightarrow> (Skipped i # log, db', raised))
                 else reminder_rows now_utc b rest db))"

text \<open>
  One pass: the rows are those of
  \<open>SELECT * FROM events WHERE event_time_utc IS NOT NULL AND reminded = 0\<close>.
\<close>

definition reminder_loop :: "instant \<Rightarrow> bot \<Rightarrow> store \<Rightarrow> sink_event list \<times> store \<times> bool" where
  "reminder_loop now_utc b db =
     reminder_rows now_utc b
       (filter (\<lambda>(i, row). event_time_utc row \<noteq> None \<and> reminded row = 0) (rows db)) db"

text \<open>
  Consecutive passes of the loop, each at its own time and with its own state of the
  channels. A pass that ended by an exception is followed by the next pass all the same:
  the task is retried, or started again by \<open>on_ready\<close>.
\<close>

fun run_scans :: "(instant \<times> bot) list \<Rightarrow> store \<Rightarrow> sink_event list \<times> store" where
  "run_scans [] db = ([], db)"
| "run_scans ((now_utc, b) # ss) db =
     (case reminder_loop now_utc b db of
        (log, db1, raised) \<Rightarrow>
          (case run_scans ss db1 of (log2, db2) \<Rightarrow> (log @ log2, db2)))"

text \<open>How often the sink was called for an event, and how often a send returned.\<close>

definition send_calls :: "int \<Rightarrow> sink_event list \<Rightarrow> nat" where
  "send_calls i log = length (filter (\<lambda>e. e = Sent i \<or> e = SendRaised i) log)"

definition deliveries :: "int \<Rightarrow> sink_event list \<Rightarrow> nat" where
  "deliveries i log = length (filter (\<lambda>e. e = Sent i) log)"

definition armed :: "store \<Rightarrow> int \<Rightarrow> bool" where
  "armed db i = (case fetchone db i of None \<Rightarrow> False | Some row \<Rightarrow> reminded row = 0)"


section \<open>Invariants of an event\<close>

text \<open>
  The manager of an event is unset, empty, or one of the participants as the handlers read
  them; the participants are pairwise different.
\<close>

definition manager_ok :: "ustring list \<Rightarrow> ustring option \<Rightarrow> bool" where
  "manager_ok parts mgr = (case mgr of None \<Rightarrow> True | Some m \<Rightarrow> m = [] \<or> m \<in> set parts)"

definition event_ok :: "event \<Rightarrow> bool" where
  "event_ok row \<longleftrightarrow>
     distinct (names_to_list (participants row)) \<and>
     manager_ok (names_to_list (participants row)) (manager row)"

definition event_inv :: "store \<Rightarrow> int \<Rightarrow> bool" where
  "event_inv db i = (case fetchone db i of None \<Rightarrow> True | Some row \<Rightarrow> event_ok row)"

text \<open>The display names that a command writes into the participants column.\<close>

fun names_plain :: "command \<Rightarrow> bool" where
  "names_plain (CreateEvent c payload) = plain_name (display_name c)"
| "names_plain (JoinEvent c i) = plain_name (display_name c)"
| "names_plain cmd = True"


section \<open>Predicates on a pass of the reminder loop\<close>

text \<open>A row that the query of the pass selects.\<close>

definition candidate :: "event \<Rightarrow> bool" where
  "candidate row \<longleftrightarrow> event_time_utc row \<noteq> None \<and> reminded row = 0"

text \<open>
  What the loop body does with a row, as its branches decide it: nothing, raise before any
  send, send with the send returning, send with the send raising, or skip the send.
\<close>

datatype action = Passes | Raises | Sends | SendRaises | Skips

definition action_of :: "instant \<Rightarrow> bot \<Rightarrow> event \<Rightarrow> action" where
  "action_of now_utc b row =
     (case event_time_utc row of
        None \<Rightarrow> Passes
      | Some t \<Rightarrow>
          if \<not> datetime_ok t then Raises
          else
            (case remind_at row t of
               None \<Rightarrow> Raises
             | Some at \<Rightarrow>
                 if now_utc \<ge> at then
                   (if is_messageable (resolve_channel b row) then
                      (if fmt_dt_local_raises (event_time_utc row) then Raises
                       else if send_fails (resolve_channel b row) then SendRaises
                       else Sends)
                    else Skips)
                 else Passes))"

text \<open>
  The threshold of a row has been crossed at the time of the pass: the event time is set
  and is a \<open>datetime\<close>, the threshold is one, and it is not after the time of the pass.
\<close>

definition due :: "instant \<Rightarrow> event \<Rightarrow> bool" where
  "due now_utc row =
     (case event_time_utc row of
        None \<Rightarrow> False
      | Some t \<Rightarrow>
          datetime_ok t \<and> (case remind_at row t of None \<Rightarrow> False | Some at \<Rightarrow> now_utc \<ge> at))"

text \<open>A row at which the pass ends by an exception, so that later rows are not reached.\<close>

definition blocks :: "instant \<Rightarrow> bot \<Rightarrow> event \<Rightarrow> bool" where
  "blocks now_utc b row \<longleftrightarrow>
     candidate row \<and> (action_of now_utc b row = Raises \<or> action_of now_utc b row = SendRaises)"

text \<open>A log entry is about the event with the given identifier.\<close>

definition about :: "int \<Rightarrow> sink_event \<Rightarrow> bool" where
  "about i e \<longleftrightarrow> e = Sent i \<or> e = SendRaised i \<or> e = Skipped i"


section \<open>Sample inputs\<close>

text \<open>
  A parser that knows two time strings, the second of them in the first hours of year 1;
  an invocation context for a name; a payload.
\<close>

definition demo_strptime :: "ustring \<Rightarrow> int option" where
  "demo_strptime s =
     (if s = ustr ''2025-08-20 19:30'' then Some 1755718200000000
      else if s = ustr ''0001-01-01 03:00'' then Some (- 62135586000000000)
      else None)"

definition ctx_of :: "ustring \<Rightarrow> ctx" where
  "ctx_of name =
     \<lparr>channel_messageable = True, ctx_channel_id = 7, display_name = name,
      guild_perms = Some False\<rparr>"

definition demo_payload :: "ustring option" where
  "demo_payload = Some (ustr ''Board Game Night | 2025-08-20 19:30 | Cafe X'')"

text \<open>The event of the payload as Alice creates it in an empty table, and that table.\<close>

definition demo_event :: event where
  "demo_event =
     \<lparr>channel_id = Some 7, title = ustr ''Board Game Night'', proposer = ustr ''Alice'',
      manager = Some (ustr ''Alice''), participants = Some (ustr ''Alice''), note_text = [],
      location = Some (ustr ''Cafe X''), event_time_utc = Some 1755689400000000,
      remind_minutes = Some 30, reminded = 0\<rparr>"

definition demo_db :: store where
  "demo_db = \<lparr>rows = [(1, demo_event)], sqlite_sequence = 1\<rparr>"

text \<open>Two events are created, the first is deleted by its proposer, a third is created.\<close>

definition demo_session :: "command list" where
  "demo_session =
     [CreateEvent (ctx_of (ustr ''Alice'')) demo_payload,
      CreateEvent (ctx_of (ustr ''Bob'')) demo_payload,
      DeleteEvent (ctx_of (ustr ''Alice'')) 1 (Some (ustr ''confirm'')),
      CreateEvent (ctx_of (ustr ''Carol'')) demo_payload]"

text \<open>
  A bot whose channel 7 is a text channel that takes messages, and one whose channel 7 is
  a text channel on which every send raises.
\<close>

definition demo_bot :: bot where
  "demo_bot cid = (if cid = 7 then Some \<lparr>kind = TextChannel, send_raises = False\<rparr> else None)"

definition failing_bot :: bot where
  "failing_bot cid = (if cid = 7 then Some \<lparr>kind = TextChannel, send_raises = True\<rparr> else None)"

text \<open>
  A table of two events: the first has a channel that the bot does not know, the second
  is the sample event.
\<close>

definition demo_db2 :: store where
  "demo_db2 =
     \<lparr>rows = [(1, demo_event\<lparr>channel_id := Some 8\<rparr>), (2, demo_event)], sqlite_sequence = 2\<rparr>"


section \<open>Splitting and joining\<close>

lemma py_split_not_Nil [simp]: "py_split c s \<noteq> []"
  by (induction s) (auto split: list.splits)

lemma py_split_append: "py_split c (a @ c # b) = py_split c a @ py_split c b"
  by (induction a) (auto split: list.splits)

lemma py_split_no_sep: "c \<notin> set a \<Longrightarrow> py_split c a = [a]"
  by (induction a) auto

lemma py_split_pieces: "x \<in> set (py_split c s) \<Longrightarrow> c \<notin> set x"
  by (induction s arbitrary: x) (auto split: if_splits list.splits)

lemma py_strip_Nil [simp]: "py_strip [] = []"
  by (simp add: py_strip_def)

lemma py_strip_space_Cons: "isspace c \<Longrightarrow> py_strip (c # x) = py_strip x"
  by (simp add: py_strip_def)

lemma set_py_strip: "set (py_strip x) \<subseteq> set x"
proof -
  have "set (py_strip x) \<subseteq> set (dropWhile isspace x)"
    unfolding py_strip_def using set_dropWhileD by fastforce
  also have "\<dots> \<subseteq> set x" using set_dropWhileD by fastforce
  finally show ?thesis .
qed

lemma py_strip_trimmed: "trimmed (py_strip x)"
proof (cases "py_strip x = []")
  case True
  then show ?thesis by (simp add: trimmed_def)
next
  case False
  let ?d = "dropWhile isspace x"
  let ?e = "dropWhile isspace (rev ?d)"
  have e: "?e \<noteq> []" using False by (simp add: py_strip_def)
  have d: "?d \<noteq> []"
  proof
    assume "?d = []"
    then have "?e = []" by (metis dropWhile.simps(1) rev.simps(1))
    with e show False by simp
  qed
  have l: "\<not> isspace (hd ?e)" using e hd_dropWhile by blast
  have "last (py_strip x) = hd ?e" using e by (simp add: py_strip_def last_rev)
  moreover have "hd (py_strip x) = hd ?d"
  proof -
    have "rev ?d = takeWhile isspace (rev ?d) @ ?e" by simp
    then have "?d = rev ?e @ rev (takeWhile isspace (rev ?d))"
      by (metis rev_append rev_rev_ident)
    then have "hd ?d = hd (rev ?e)" using e by (metis hd_append2 rev_is_Nil_conv)
    then show ?thesis by (simp add: py_strip_def)
  qed
  moreover have "\<not> isspace (hd ?d)" using d hd_dropWhile by blast
  ultimately show ?thesis using l by (simp add: trimmed_def)
qed

lemma trimmed_py_strip: "trimmed x \<Longrightarrow> py_strip x = x"
proof (cases x)
  case Nil
  then show ?thesis by simp
next
  case (Cons a y)
  assume "trimmed x"
  with Cons have h: "\<not> isspace (hd x)" and l: "\<not> isspace (last x)" and ne: "x \<noteq> []"
    by (auto simp: trimmed_def)
  have 1: "dropWhile isspace x = x" using h ne by (cases x) auto
  obtain b ys where r: "rev x = b # ys" using ne by (cases "rev x") auto
  then have "b = last x" using ne by (metis hd_rev list.sel(1))
  then have 2: "dropWhile isspace (rev x) = rev x" using l r by (metis dropWhile.simps(2))
  show ?thesis by (simp add: py_strip_def 1 2)
qed

lemma names_to_list_Some:
  "names_to_list (Some s) = filter (\<lambda>x. x \<noteq> []) (map py_strip (py_split 44 s))"
  by simp

declare names_to_list.simps(2) [simp del]

lemma names_to_list_entries: "x \<in> set (names_to_list s) \<Longrightarrow> clean_name x"
proof (cases s)
  case None
  assume "x \<in> set (names_to_list s)"
  with None show ?thesis by simp
next
  case (Some t)
  assume "x \<in> set (names_to_list s)"
  with Some obtain p where p: "p \<in> set (py_split 44 t)" and x: "x = py_strip p" and ne: "x \<noteq> []"
    by (auto simp: names_to_list_Some)
  have "44 \<notin> set p" using p by (rule py_split_pieces)
  then have "44 \<notin> set x" using set_py_strip x by blast
  then show ?thesis using ne x by (simp add: clean_name_def plain_name_def py_strip_trimmed)
qed

lemma names_to_list_append:
  "names_to_list (Some (a @ 44 # b)) = names_to_list (Some a) @ names_to_list (Some b)"
  unfolding names_to_list_Some by (simp add: py_split_append)

lemma names_to_list_space:
  assumes "isspace c" and "c \<noteq> 44"
  shows "names_to_list (Some (c # b)) = names_to_list (Some b)"
proof -
  obtain p ps where ps: "py_split 44 b = p # ps" by (cases "py_split 44 b") auto
  show ?thesis unfolding names_to_list_Some using assms ps by (simp add: py_strip_space_Cons)
qed

lemma names_to_list_join:
  "names_to_list (Some (list_to_names l)) = concat (map (\<lambda>n. names_to_list (Some n)) l)"
proof (induction l)
  case Nil
  then show ?case by (simp add: list_to_names_def names_to_list_Some)
next
  case (Cons x l)
  show ?case
  proof (cases l)
    case Nil
    then show ?thesis by (simp add: list_to_names_def)
  next
    case (Cons y ys)
    have "list_to_names (x # y # ys) = x @ 44 # (32 # list_to_names (y # ys))"
      by (simp add: list_to_names_def)
    then have "names_to_list (Some (list_to_names (x # y # ys)))
        = names_to_list (Some x) @ names_to_list (Some (32 # list_to_names (y # ys)))"
      by (simp only: names_to_list_append)
    also have "names_to_list (Some (32 # list_to_names (y # ys)))
        = names_to_list (Some (list_to_names (y # ys)))"
      by (rule names_to_list_space) (simp_all add: isspace_def)
    finally show ?thesis using Cons.IH Cons by simp
  qed
qed

lemma names_to_list_plain:
  "plain_name n \<Longrightarrow> names_to_list (Some n) = (if n = [] then [] else [n])"
  by (simp add: names_to_list_Some plain_name_def py_split_no_sep trimmed_py_strip)

lemma names_to_list_clean: "clean_name n \<Longrightarrow> names_to_list (Some n) = [n]"
  by (simp add: clean_name_def names_to_list_plain)

lemma reread_clean:
  "list_all clean_name l \<Longrightarrow> names_to_list (Some (list_to_names l)) = l"
  unfolding names_to_list_join by (induction l) (simp_all add: names_to_list_clean)

lemma reread_parts:
  "names_to_list (Some (list_to_names (filter P (names_to_list s)))) = filter P (names_to_list s)"
  by (rule reread_clean) (auto simp: list_all_iff intro: names_to_list_entries)

lemma reread_parts_snoc:
  assumes "plain_name m"
  shows "names_to_list (Some (list_to_names (names_to_list s @ [m])))
           = names_to_list s @ (if m = [] then [] else [m])"
proof -
  have "list_all clean_name (names_to_list s)"
    by (simp add: list_all_iff names_to_list_entries)
  then have "concat (map (\<lambda>n. names_to_list (Some n)) (names_to_list s)) = names_to_list s"
    using reread_clean names_to_list_join by simp
  then show ?thesis using assms by (simp add: names_to_list_join names_to_list_plain)
qed


section \<open>The table operations\<close>

lemma map_of_update_rows:
  "map_of (map (\<lambda>(j, r). if j = i then (j, f r) else (j, r)) xs) k
     = (if k = i then map_option f (map_of xs i) else map_of xs k)"
  by (induction xs) auto

lemma map_of_delete_rows:
  "map_of (filter (\<lambda>(j, r). j \<noteq> i) xs) k = (if k = i then None else map_of xs k)"
  by (induction xs) auto

lemma fetchone_update:
  "fetchone (update_where_id f i db) k
     = (if k = i then map_option f (fetchone db i) else fetchone db k)"
  by (simp add: fetchone_def update_where_id_def map_of_update_rows)

lemma fetchone_delete:
  "fetchone (delete_where_id i db) k = (if k = i then None else fetchone db k)"
  by (simp add: fetchone_def delete_where_id_def map_of_delete_rows)

lemma ids_update [simp]: "ids (update_where_id f i db) = ids db"
  by (simp add: ids_def update_where_id_def) (induction "rows db"; auto)

lemma seq_update [simp]: "sqlite_sequence (update_where_id f i db) = sqlite_sequence db"
  by (simp add: update_where_id_def)

lemma ids_delete: "ids (delete_where_id i db) = filter (\<lambda>j. j \<noteq> i) (ids db)"
proof -
  have "map fst (filter (\<lambda>(j, r). j \<noteq> i) xs) = filter (\<lambda>j. j \<noteq> i) (map fst xs)"
    for xs :: "(int \<times> event) list"
    by (induction xs) auto
  then show ?thesis by (simp add: ids_def delete_where_id_def)
qed

lemma seq_delete [simp]: "sqlite_sequence (delete_where_id i db) = sqlite_sequence db"
  by (simp add: delete_where_id_def)

lemma insert_event_Some:
  assumes "insert_event r db = Some (n, db')"
  shows "n = sqlite_sequence db + 1" and "rows db' = rows db @ [(n, r)]"
    and "sqlite_sequence db' = n" and "sqlite_sequence db < max_rowid"
  using assms by (auto simp: insert_event_def split: if_splits)

lemma fetchone_absent: "i \<notin> set (ids db) \<Longrightarrow> fetchone db i = None"
  by (simp add: fetchone_def ids_def map_of_eq_None_iff)

lemma fetchone_present: "fetchone db i = Some row \<Longrightarrow> i \<in> set (ids db)"
  by (metis fetchone_absent option.distinct(1))

lemma wf_store_bound: "wf_store db \<Longrightarrow> i \<in> set (ids db) \<Longrightarrow> i \<le> sqlite_sequence db"
  by (simp add: wf_store_def list_all_iff)

lemma fetchone_insert:
  assumes "insert_event r db = Some (n, db')"
  shows "fetchone db' k
           = (case fetchone db k of Some x \<Rightarrow> Some x | None \<Rightarrow> if k = n then Some r else None)"
  using insert_event_Some(2)[OF assms]
  by (auto simp: fetchone_def map_add_def split: option.splits)

lemma wf_update: "wf_store db \<Longrightarrow> wf_store (update_where_id f i db)"
  by (simp add: wf_store_def)

lemma wf_delete: "wf_store db \<Longrightarrow> wf_store (delete_where_id i db)"
  by (simp add: wf_store_def ids_delete list_all_iff)

lemma wf_insert:
  assumes "wf_store db" and "insert_event r db = Some (n, db')"
  shows "wf_store db'"
proof -
  have i: "ids db' = ids db @ [n]" using insert_event_Some(2)[OF assms(2)] by (simp add: ids_def)
  have n: "n = sqlite_sequence db + 1" and s: "sqlite_sequence db' = n"
    using insert_event_Some[OF assms(2)] by simp_all
  have "\<forall>j \<in> set (ids db). j \<le> sqlite_sequence db"
    using assms(1) by (simp add: wf_store_def list_all_iff)
  then show ?thesis using assms(1) i n s by (fastforce simp: wf_store_def list_all_iff)
qed

lemma wf_init_db: "wf_store init_db"
  by (simp add: wf_store_def init_db_def ids_def)


section \<open>What every command keeps\<close>

lemma create_event_cases:
  assumes "create_event sp c payload db = (r, db')"
  shows "(db' = db \<and> (\<forall>n. r \<noteq> Created n)) \<or>
         (\<exists>row. insert_event row db = Some (sqlite_sequence db + 1, db') \<and>
                 r = Created (sqlite_sequence db + 1) \<and>
                 participants row = Some (list_to_names [display_name c]) \<and>
                 manager row = Some (display_name c))"
proof (cases "channel_messageable c")
  case False
  with assms show ?thesis by (simp add: create_event_def)
next
  case msg: True
  show ?thesis
  proof (cases payload)
    case None
    with assms msg show ?thesis by (simp add: create_event_def)
  next
    case (Some p)
    show ?thesis
    proof (cases "p = [] \<or> length (payload_parts p) < 3")
      case True
      with msg Some have "create_event sp c payload db = (Usage, db)"
        by (auto simp: create_event_def Let_def)
      with assms show ?thesis by simp
    next
      case ok: False
      show ?thesis
      proof (cases "parse_local_time sp (payload_parts p ! 1)")
        case None
        with assms msg Some ok show ?thesis by (simp add: create_event_def Let_def)
      next
        case t: (Some dt_local)
        show ?thesis
        proof (cases "astimezone_utc dt_local")
          case None
          with assms msg Some ok t show ?thesis by (simp add: create_event_def Let_def)
        next
          case u: (Some dt)
        let ?row = "\<lparr>channel_id = Some (ctx_channel_id c), title = payload_parts p ! 0,
                      proposer = display_name c, manager = Some (display_name c),
                      participants = Some (list_to_names [display_name c]),
                      note_text = (if length (payload_parts p) \<ge> 4 then payload_parts p ! 3 else []),
                      location = Some (payload_parts p ! 2), event_time_utc = Some dt,
                      remind_minutes = Some 30, reminded = 0\<rparr>"
        have eq: "create_event sp c payload db =
            (case insert_event ?row db of
               None \<Rightarrow> (StoreFull, db)
             | Some (event_id, db') \<Rightarrow> (Created event_id, db'))"
          using msg Some ok t u by (simp add: create_event_def Let_def)
        show ?thesis
        proof (cases "insert_event ?row db")
          case None
          with assms eq show ?thesis by simp
        next
          case (Some a)
          obtain n d where a: "a = (n, d)" by (cases a)
          have n: "n = sqlite_sequence db + 1"
            using Some a insert_event_Some(1) by blast
          have "r = Created n" and "db' = d" using assms eq Some a by simp_all
          then have "insert_event ?row db = Some (sqlite_sequence db + 1, db') \<and>
              r = Created (sqlite_sequence db + 1) \<and>
              participants ?row = Some (list_to_names [display_name c]) \<and>
              manager ?row = Some (display_name c)"
            using Some a n by simp
          then show ?thesis by blast
        qed
        qed
      qed
    qed
  qed
qed

lemma join_event_keeps:
  "(\<forall>n. fst (join_event c i db) \<noteq> Created n) \<and>
   sqlite_sequence (snd (join_event c i db)) = sqlite_sequence db \<and>
   (wf_store db \<longrightarrow> wf_store (snd (join_event c i db)))"
  by (simp add: join_event_def Let_def wf_update split: option.splits)

lemma leave_event_keeps:
  "(\<forall>n. fst (leave_event c i db) \<noteq> Created n) \<and>
   sqlite_sequence (snd (leave_event c i db)) = sqlite_sequence db \<and>
   (wf_store db \<longrightarrow> wf_store (snd (leave_event c i db)))"
  by (simp add: leave_event_def Let_def wf_update split: option.splits)

lemma set_manager_keeps:
  "(\<forall>n. fst (set_manager c i who db) \<noteq> Created n) \<and>
   sqlite_sequence (snd (set_manager c i who db)) = sqlite_sequence db \<and>
   (wf_store db \<longrightarrow> wf_store (snd (set_manager c i who db)))"
  by (simp add: set_manager_def Let_def wf_update split: option.splits)

lemma random_manager_keeps:
  "(\<forall>n. fst (random_manager c i rnd db) \<noteq> Created n) \<and>
   sqlite_sequence (snd (random_manager c i rnd db)) = sqlite_sequence db \<and>
   (wf_store db \<longrightarrow> wf_store (snd (random_manager c i rnd db)))"
  by (simp add: random_manager_def Let_def wf_update split: option.splits)

lemma add_note_keeps:
  "(\<forall>n. fst (add_note c i nt db) \<noteq> Created n) \<and>
   sqlite_sequence (snd (add_note c i nt db)) = sqlite_sequence db \<and>
   (wf_store db \<longrightarrow> wf_store (snd (add_note c i nt db)))"
  by (simp add: add_note_def wf_update split: option.splits)

lemma set_reminder_keeps:
  "(\<forall>n. fst (set_reminder c i m db) \<noteq> Created n) \<and>
   sqlite_sequence (snd (set_reminder c i m db)) = sqlite_sequence db \<and>
   (wf_store db \<longrightarrow> wf_store (snd (set_reminder c i m db)))"
  by (simp add: set_reminder_def wf_update split: option.splits)

lemma delete_event_keeps:
  "(\<forall>n. fst (delete_event c i confirm db) \<noteq> Created n) \<and>
   sqlite_sequence (snd (delete_event c i confirm db)) = sqlite_sequence db \<and>
   (wf_store db \<longrightarrow> wf_store (snd (delete_event c i confirm db)))"
  by (simp add: delete_event_def Let_def wf_delete split: option.splits)

lemma exec_not_create:
  assumes "\<forall>c payload. cmd \<noteq> CreateEvent c payload"
  shows "(\<forall>n. fst (exec sp cmd db) \<noteq> Created n) \<and>
         sqlite_sequence (snd (exec sp cmd db)) = sqlite_sequence db \<and>
         (wf_store db \<longrightarrow> wf_store (snd (exec sp cmd db)))"
proof (cases cmd)
  case (CreateEvent c payload)
  with assms show ?thesis by simp
next
  case (JoinEvent c i)
  then show ?thesis using join_event_keeps by simp
next
  case (LeaveEvent c i)
  then show ?thesis using leave_event_keeps by simp
next
  case (SetManager c i who)
  then show ?thesis using set_manager_keeps by simp
next
  case (RandomManager c i rnd)
  then show ?thesis using random_manager_keeps by simp
next
  case (AddNote c i nt)
  then show ?thesis using add_note_keeps by simp
next
  case (SetReminder c i m)
  then show ?thesis using set_reminder_keeps by simp
next
  case (DeleteEvent c i confirm)
  then show ?thesis using delete_event_keeps by simp
qed

lemma exec_created:
  assumes "exec sp cmd db = (Created n, db')"
  shows "n = sqlite_sequence db + 1 \<and> sqlite_sequence db' = n"
proof (cases cmd)
  case (CreateEvent c payload)
  with assms have "create_event sp c payload db = (Created n, db')" by simp
  from create_event_cases[OF this] show ?thesis
    by (auto dest: insert_event_Some)
qed (use assms exec_not_create[of cmd sp db] in auto)

lemma exec_seq_mono: "sqlite_sequence db \<le> sqlite_sequence (snd (exec sp cmd db))"
proof (cases cmd)
  case (CreateEvent c payload)
  obtain r db' where e: "create_event sp c payload db = (r, db')" by (cases "create_event sp c payload db")
  from create_event_cases[OF e] show ?thesis using CreateEvent e
    by (auto dest: insert_event_Some)
qed (use exec_not_create[of cmd sp db] in auto)

lemma exec_wf: "wf_store db \<Longrightarrow> wf_store (snd (exec sp cmd db))"
proof (cases cmd)
  case (CreateEvent c payload)
  assume w: "wf_store db"
  obtain r db' where e: "create_event sp c payload db = (r, db')" by (cases "create_event sp c payload db")
  from create_event_cases[OF e] show ?thesis using CreateEvent e w
    by (auto intro: wf_insert)
qed (use exec_not_create[of cmd sp db] in auto)

lemma run_wf: "wf_store db \<Longrightarrow> wf_store (snd (run sp cs db))"
proof (induction cs arbitrary: db)
  case Nil
  then show ?case by simp
next
  case (Cons c cs)
  obtain r db1 where e: "exec sp c db = (r, db1)" by (cases "exec sp c db")
  then have "wf_store db1" using exec_wf[OF Cons.prems, of sp c] by simp
  from Cons.IH[OF this] show ?case using e by (auto split: prod.splits)
qed

lemma run_append:
  "run sp (xs @ ys) db =
     (fst (run sp xs db) @ fst (run sp ys (snd (run sp xs db))),
      snd (run sp ys (snd (run sp xs db))))"
  by (induction xs arbitrary: db) (auto split: prod.splits)

lemma created_ids_Cons:
  "created_ids (r # rs) = (case r of Created i \<Rightarrow> [i] | _ \<Rightarrow> []) @ created_ids rs"
  by (cases r) auto

lemma created_ids_append: "created_ids (xs @ ys) = created_ids xs @ created_ids ys"
proof (induction xs)
  case Nil
  then show ?case by simp
next
  case (Cons r xs)
  then show ?case by (simp only: append_Cons created_ids_Cons append_assoc)
qed

lemma run_created_above:
  "x \<in> set (created_ids (fst (run sp cs db))) \<Longrightarrow> sqlite_sequence db < x"
proof (induction cs arbitrary: db)
  case Nil
  then show ?case by simp
next
  case (Cons c cs)
  obtain r db1 where e: "exec sp c db = (r, db1)" by (cases "exec sp c db")
  have m: "sqlite_sequence db \<le> sqlite_sequence db1" using exec_seq_mono[of db sp c] e by simp
  from Cons.prems e have "x \<in> set (case r of Created i \<Rightarrow> [i] | _ \<Rightarrow> []) \<or>
      x \<in> set (created_ids (fst (run sp cs db1)))"
    by (auto simp: created_ids_Cons split: prod.splits simp del: created_ids.simps)
  then show ?case
  proof
    assume "x \<in> set (case r of Created i \<Rightarrow> [i] | _ \<Rightarrow> [])"
    then have "r = Created x" by (cases r) auto
    with e exec_created show ?thesis by fastforce
  next
    assume "x \<in> set (created_ids (fst (run sp cs db1)))"
    from Cons.IH[OF this] m show ?thesis by simp
  qed
qed

lemma run_created_sorted: "sorted_wrt (<) (created_ids (fst (run sp cs db)))"
proof (induction cs arbitrary: db)
  case Nil
  then show ?case by simp
next
  case (Cons c cs)
  obtain r db1 where e: "exec sp c db = (r, db1)" by (cases "exec sp c db")
  have rest: "sorted_wrt (<) (created_ids (fst (run sp cs db1)))" by (rule Cons.IH)
  have split: "created_ids (fst (run sp (c # cs) db))
      = (case r of Created i \<Rightarrow> [i] | _ \<Rightarrow> []) @ created_ids (fst (run sp cs db1))"
    using e by (simp add: created_ids_Cons split: prod.splits del: created_ids.simps)
  show ?case
  proof (cases "\<exists>n. r = Created n")
    case True
    then obtain n where r: "r = Created n" by blast
    with e exec_created have "sqlite_sequence db1 = n" by fastforce
    then have "\<forall>x \<in> set (created_ids (fst (run sp cs db1))). n < x"
      using run_created_above by blast
    then show ?thesis using rest split r by simp
  next
    case False
    then have "(case r of Created i \<Rightarrow> [i] | _ \<Rightarrow> []) = []" by (cases r) auto
    then show ?thesis using rest split by simp
  qed
qed


section \<open>The sample inputs evaluated\<close>

lemma ctx_of_fields:
  "display_name (ctx_of who) = who" "guild_perms (ctx_of who) = Some False"
  "channel_messageable (ctx_of who) = True" "ctx_channel_id (ctx_of who) = 7"
  by (simp_all add: ctx_of_def)

lemma demo_create:
  "create_event demo_strptime (ctx_of who) demo_payload db =
     (if sqlite_sequence db \<ge> max_rowid then (StoreFull, db)
      else (Created (sqlite_sequence db + 1),
            \<lparr>rows = rows db @ [(sqlite_sequence db + 1,
                 demo_event\<lparr>proposer := who, manager := Some who,
                            participants := Some who\<rparr>)],
             sqlite_sequence = sqlite_sequence db + 1\<rparr>))"
  by (simp add: create_event_def demo_strptime_def ctx_of_def demo_payload_def
      payload_parts_def parse_local_time_def astimezone_utc_def datetime_ok_def
      min_datetime_def max_datetime_def insert_event_def list_to_names_def
      demo_event_def ustr_def py_strip_def isspace_def Let_def)

lemma fetchone_demo_db: "fetchone demo_db 1 = Some demo_event"
  by (simp add: fetchone_def demo_db_def)

lemma names_of_demo_event: "names_to_list (participants demo_event) = [ustr ''Alice'']"
  by (simp add: demo_event_def names_to_list_Some py_strip_def isspace_def ustr_def)


section \<open>The invariant of an event under every command\<close>

lemma event_ok_created:
  assumes "plain_name n" and "participants row = Some (list_to_names [n])"
    and "manager row = Some n"
  shows "event_ok row"
  using assms by (simp add: event_ok_def manager_ok_def list_to_names_def names_to_list_plain)

lemma event_ok_joined:
  assumes "event_ok row" and "plain_name m" and "m \<notin> set (names_to_list (participants row))"
  shows "event_ok (row\<lparr>participants :=
            Some (list_to_names (names_to_list (participants row) @ [m]))\<rparr>)"
  using assms
  by (auto simp: event_ok_def manager_ok_def reread_parts_snoc split: option.splits)

lemma event_ok_left:
  assumes "event_ok row"
  shows "event_ok (row\<lparr>participants :=
            Some (list_to_names (filter (\<lambda>p. p \<noteq> name) (names_to_list (participants row)))),
          manager := (if Some name = manager row then None else manager row)\<rparr>)"
  using assms
  by (auto simp: event_ok_def manager_ok_def reread_parts split: option.splits)

lemma event_ok_manager:
  assumes "event_ok row" and "who \<in> set (names_to_list (participants row))"
  shows "event_ok (row\<lparr>manager := Some who\<rparr>)"
  using assms by (simp add: event_ok_def manager_ok_def)

lemma event_inv_update:
  assumes "event_inv db i" and "\<And>row. fetchone db j = Some row \<Longrightarrow> event_ok row \<Longrightarrow> event_ok (f row)"
  shows "event_inv (update_where_id f j db) i"
  using assms by (auto simp: event_inv_def fetchone_update split: option.splits)

lemma join_event_inv:
  assumes "plain_name (display_name c)" and "event_inv db i"
  shows "event_inv (snd (join_event c j db)) i"
proof (cases "fetchone db j")
  case None
  with assms show ?thesis by (simp add: join_event_def)
next
  case (Some row)
  show ?thesis
  proof (cases "display_name c \<in> set (names_to_list (participants row))")
    case True
    with assms Some show ?thesis by (simp add: join_event_def)
  next
    case False
    have "event_inv (update_where_id
        (\<lambda>r. r\<lparr>participants :=
            Some (list_to_names (names_to_list (participants row) @ [display_name c]))\<rparr>) j db) i"
    proof (rule event_inv_update[OF assms(2)])
      fix r assume "fetchone db j = Some r" and ok: "event_ok r"
      with Some have "r = row" by simp
      with ok False assms(1) event_ok_joined[of row "display_name c"]
      show "event_ok (r\<lparr>participants :=
            Some (list_to_names (names_to_list (participants row) @ [display_name c]))\<rparr>)"
        by simp
    qed
    with Some False show ?thesis by (simp add: join_event_def Let_def)
  qed
qed

lemma leave_event_inv:
  assumes "event_inv db i"
  shows "event_inv (snd (leave_event c j db)) i"
proof (cases "fetchone db j")
  case None
  with assms show ?thesis by (simp add: leave_event_def)
next
  case (Some row)
  show ?thesis
  proof (cases "display_name c \<in> set (names_to_list (participants row))")
    case False
    with assms Some show ?thesis by (simp add: leave_event_def)
  next
    case True
    have "event_inv (update_where_id
        (\<lambda>r. r\<lparr>participants :=
                  Some (list_to_names
                    (filter (\<lambda>p. p \<noteq> display_name c) (names_to_list (participants row)))),
                manager := (if Some (display_name c) = manager row then None else manager row)\<rparr>)
        j db) i"
    proof (rule event_inv_update[OF assms])
      fix r assume "fetchone db j = Some r" and ok: "event_ok r"
      with Some have "r = row" by simp
      with ok event_ok_left[of row "display_name c"]
      show "event_ok (r\<lparr>participants :=
                  Some (list_to_names
                    (filter (\<lambda>p. p \<noteq> display_name c) (names_to_list (participants row)))),
                manager := (if Some (display_name c) = manager row then None else manager row)\<rparr>)"
        by simp
    qed
    with Some True show ?thesis by (simp add: leave_event_def Let_def)
  qed
qed

lemma set_manager_inv:
  assumes "event_inv db i"
  shows "event_inv (snd (set_manager c j who db)) i"
proof (cases "fetchone db j")
  case None
  with assms show ?thesis by (simp add: set_manager_def)
next
  case (Some row)
  show ?thesis
  proof (cases "who \<in> set (names_to_list (participants row))")
    case False
    with assms Some show ?thesis by (simp add: set_manager_def)
  next
    case True
    have "event_inv (update_where_id (\<lambda>r. r\<lparr>manager := Some who\<rparr>) j db) i"
    proof (rule event_inv_update[OF assms])
      fix r assume "fetchone db j = Some r" and ok: "event_ok r"
      with Some have "r = row" by simp
      with ok True show "event_ok (r\<lparr>manager := Some who\<rparr>)" by (simp add: event_ok_manager)
    qed
    with Some True show ?thesis by (simp add: set_manager_def)
  qed
qed

lemma random_manager_inv:
  assumes "event_inv db i"
  shows "event_inv (snd (random_manager c j rnd db)) i"
proof (cases j)
  case None
  with assms show ?thesis by (simp add: random_manager_def)
next
  case (Some k)
  show ?thesis
  proof (cases "fetchone db k")
    case None
    with assms Some show ?thesis by (simp add: random_manager_def)
  next
    case row: (Some row)
    let ?parts = "names_to_list (participants row)"
    show ?thesis
    proof (cases "?parts = []")
      case True
      with assms Some row show ?thesis by (simp add: random_manager_def)
    next
      case False
      then have mem: "?parts ! (rnd mod length ?parts) \<in> set ?parts" by simp
      have "event_inv (update_where_id
          (\<lambda>r. r\<lparr>manager := Some (?parts ! (rnd mod length ?parts))\<rparr>) k db) i"
      proof (rule event_inv_update[OF assms])
        fix r assume "fetchone db k = Some r" and ok: "event_ok r"
        with row have "r = row" by simp
        with ok mem show "event_ok (r\<lparr>manager := Some (?parts ! (rnd mod length ?parts))\<rparr>)"
          by (simp add: event_ok_manager)
      qed
      with Some row False show ?thesis by (simp add: random_manager_def Let_def)
    qed
  qed
qed

lemma add_note_inv:
  assumes "event_inv db i"
  shows "event_inv (snd (add_note c j nt db)) i"
proof (cases "fetchone db j")
  case None
  with assms show ?thesis by (simp add: add_note_def)
next
  case (Some row)
  have "event_inv (update_where_id (\<lambda>r. r\<lparr>note_text := nt\<rparr>) j db) i"
    by (rule event_inv_update[OF assms]) (simp add: event_ok_def)
  with Some show ?thesis by (simp add: add_note_def)
qed

lemma set_reminder_inv:
  assumes "event_inv db i"
  shows "event_inv (snd (set_reminder c j m db)) i"
proof (cases "fetchone db j")
  case None
  with assms show ?thesis by (simp add: set_reminder_def)
next
  case (Some row)
  have "event_inv (update_where_id (\<lambda>r. r\<lparr>remind_minutes := Some m, reminded := 0\<rparr>) j db) i"
    by (rule event_inv_update[OF assms]) (simp add: event_ok_def)
  with Some assms show ?thesis by (simp add: set_reminder_def)
qed

lemma delete_event_inv:
  assumes "event_inv db i"
  shows "event_inv (snd (delete_event c j confirm db)) i"
proof -
  have "event_inv (delete_where_id j db) i"
    using assms by (simp add: event_inv_def fetchone_delete)
  with assms show ?thesis by (simp add: delete_event_def Let_def split: option.splits)
qed

lemma create_event_inv:
  assumes "plain_name (display_name c)" and "event_inv db i"
  shows "event_inv (snd (create_event sp c payload db)) i"
proof -
  obtain r db' where e: "create_event sp c payload db = (r, db')"
    by (cases "create_event sp c payload db")
  from create_event_cases[OF e] show ?thesis
  proof
    assume "db' = db \<and> (\<forall>n. r \<noteq> Created n)"
    with e assms show ?thesis by simp
  next
    assume "\<exists>row. insert_event row db = Some (sqlite_sequence db + 1, db') \<and>
                 r = Created (sqlite_sequence db + 1) \<and>
                 participants row = Some (list_to_names [display_name c]) \<and>
                 manager row = Some (display_name c)"
    then obtain row where ins: "insert_event row db = Some (sqlite_sequence db + 1, db')"
      and p: "participants row = Some (list_to_names [display_name c])"
      and m: "manager row = Some (display_name c)" by blast
    have ok: "event_ok row" using assms(1) p m by (rule event_ok_created)
    have "event_inv db' i"
      using assms(2) ok by (auto simp: event_inv_def fetchone_insert[OF ins] split: option.splits)
    with e show ?thesis by simp
  qed
qed

lemma exec_event_inv:
  assumes "names_plain cmd" and "event_inv db i"
  shows "event_inv (snd (exec sp cmd db)) i"
proof (cases cmd)
  case (CreateEvent c payload)
  with assms show ?thesis by (simp add: create_event_inv)
next
  case (JoinEvent c j)
  with assms show ?thesis by (simp add: join_event_inv)
next
  case (LeaveEvent c j)
  with assms show ?thesis by (simp add: leave_event_inv)
next
  case (SetManager c j who)
  with assms show ?thesis by (simp add: set_manager_inv)
next
  case (RandomManager c j rnd)
  with assms show ?thesis by (simp add: random_manager_inv)
next
  case (AddNote c j nt)
  with assms show ?thesis by (simp add: add_note_inv)
next
  case (SetReminder c j m)
  with assms show ?thesis by (simp add: set_reminder_inv)
next
  case (DeleteEvent c j confirm)
  with assms show ?thesis by (simp add: delete_event_inv)
qed

lemma run_event_inv:
  assumes "list_all names_plain cs" and "event_inv db i"
  shows "event_inv (snd (run sp cs db)) i"
  using assms
proof (induction cs arbitrary: db)
  case Nil
  then show ?case by simp
next
  case (Cons c cs)
  obtain r db1 where e: "exec sp c db = (r, db1)" by (cases "exec sp c db")
  have "event_inv db1 i" using exec_event_inv[of c db i sp] Cons.prems e by simp
  with Cons have "event_inv (snd (run sp cs db1)) i" by simp
  with e show ?case by (auto split: prod.splits)
qed

lemma created_event_inv:
  assumes "create_event sp c payload db = (Created i, db1)" and "wf_store db"
    and "plain_name (display_name c)"
  shows "event_inv db1 i"
proof -
  from create_event_cases[OF assms(1)]
  obtain row where ins: "insert_event row db = Some (sqlite_sequence db + 1, db1)"
    and i: "i = sqlite_sequence db + 1"
    and p: "participants row = Some (list_to_names [display_name c])"
    and m: "manager row = Some (display_name c)" by auto
  have "i \<notin> set (ids db)" using wf_store_bound[OF assms(2), of i] i by auto
  then have "fetchone db i = None" by (rule fetchone_absent)
  then have "fetchone db1 i = Some row" using fetchone_insert[OF ins, of i] i by simp
  moreover have "event_ok row" using assms(3) p m by (rule event_ok_created)
  ultimately show ?thesis by (simp add: event_inv_def)
qed

lemma session_event_inv:
  assumes "create_event sp c payload db = (Created i, db1)" and "wf_store db"
    and "plain_name (display_name c)" and "list_all names_plain cs"
  shows "event_inv (snd (run sp (take n cs) db1)) i"
proof -
  have "list_all names_plain (take n cs)"
    using assms(4) by (auto simp: list_all_iff dest: in_set_takeD)
  then show ?thesis using created_event_inv[OF assms(1-3)] by (rule run_event_inv)
qed


section \<open>One pass of the reminder loop\<close>

lemma reminder_rows_Cons:
  "reminder_rows now b ((i, row) # rest) db =
     (case action_of now b row of
        Passes \<Rightarrow> reminder_rows now b rest db
      | Raises \<Rightarrow> ([], db, True)
      | Sends \<Rightarrow>
          (case reminder_rows now b rest (mark_reminded i db) of
             (log, db', r) \<Rightarrow> (Sent i # log, db', r))
      | SendRaises \<Rightarrow> ([SendRaised i], db, True)
      | Skips \<Rightarrow>
          (case reminder_rows now b rest (mark_reminded i db) of
             (log, db', r) \<Rightarrow> (Skipped i # log, db', r)))"
  by (simp add: action_of_def Let_def split: option.splits)

declare reminder_rows.simps(2) [simp del]

lemma action_of_cases:
  assumes "due now row"
  shows "\<not> is_messageable (resolve_channel b row) \<Longrightarrow> action_of now b row = Skips"
    and "is_messageable (resolve_channel b row) \<Longrightarrow>
         \<not> fmt_dt_local_raises (event_time_utc row) \<Longrightarrow>
         \<not> send_fails (resolve_channel b row) \<Longrightarrow> action_of now b row = Sends"
    and "is_messageable (resolve_channel b row) \<Longrightarrow>
         \<not> fmt_dt_local_raises (event_time_utc row) \<Longrightarrow>
         send_fails (resolve_channel b row) \<Longrightarrow> action_of now b row = SendRaises"
  using assms by (auto simp: due_def action_of_def split: option.splits)

lemma unarmed_after_mark: "\<not> armed (mark_reminded i db) i"
  by (simp add: armed_def mark_reminded_def fetchone_update split: option.splits)

lemma unarmed_kept_by_mark: "\<not> armed db k \<Longrightarrow> \<not> armed (mark_reminded i db) k"
  by (auto simp: armed_def mark_reminded_def fetchone_update split: option.splits if_splits)

lemma armed_mark_other: "k \<noteq> i \<Longrightarrow> armed (mark_reminded i db) k = armed db k"
  by (simp add: armed_def mark_reminded_def fetchone_update)

lemma fetchone_mark:
  "fetchone (mark_reminded i db) k
     = (if k = i then map_option (\<lambda>r. r\<lparr>reminded := 1\<rparr>) (fetchone db i) else fetchone db k)"
  by (simp add: mark_reminded_def fetchone_update)

lemma ids_mark [simp]: "ids (mark_reminded i db) = ids db"
  by (simp add: mark_reminded_def)

lemma seq_mark [simp]: "sqlite_sequence (mark_reminded i db) = sqlite_sequence db"
  by (simp add: mark_reminded_def)

lemma rows_keep_unarmed:
  "\<not> armed db k \<Longrightarrow> \<not> armed (fst (snd (reminder_rows now b rs db))) k"
proof (induction rs arbitrary: db)
  case Nil
  then show ?case by simp
next
  case (Cons a rest)
  obtain i row where a: "a = (i, row)" by (cases a)
  have 1: "\<not> armed (fst (snd (reminder_rows now b rest db))) k"
    using Cons.prems by (rule Cons.IH)
  have "\<not> armed (mark_reminded i db) k" using Cons.prems by (rule unarmed_kept_by_mark)
  then have 2: "\<not> armed (fst (snd (reminder_rows now b rest (mark_reminded i db)))) k"
    by (rule Cons.IH)
  show ?case using 1 2 Cons.prems
    by (cases "action_of now b row") (auto simp: a reminder_rows_Cons split: prod.splits)
qed

lemma rows_keep_ids:
  "ids (fst (snd (reminder_rows now b rs db))) = ids db \<and>
   sqlite_sequence (fst (snd (reminder_rows now b rs db))) = sqlite_sequence db"
proof (induction rs arbitrary: db)
  case Nil
  then show ?case by simp
next
  case (Cons a rest)
  obtain i row where a: "a = (i, row)" by (cases a)
  show ?case using Cons.IH[of db] Cons.IH[of "mark_reminded i db"]
    by (cases "action_of now b row") (auto simp: a reminder_rows_Cons split: prod.splits)
qed

lemma rows_log_from_snapshot:
  "e \<in> set (fst (reminder_rows now b rs db)) \<Longrightarrow> about i e \<Longrightarrow> i \<in> fst ` set rs"
proof (induction rs arbitrary: db)
  case Nil
  then show ?case by simp
next
  case (Cons a rest)
  obtain j row where a: "a = (j, row)" by (cases a)
  show ?case
  proof (cases "i = j")
    case True
    then show ?thesis by (simp add: a)
  next
    case False
    then have h: "\<not> about i (Sent j)" "\<not> about i (Skipped j)" "\<not> about i (SendRaised j)"
      by (simp_all add: about_def)
    have "e \<in> set (fst (reminder_rows now b rest db)) \<or>
          e \<in> set (fst (reminder_rows now b rest (mark_reminded j db)))"
      using Cons.prems h
      by (cases "action_of now b row") (auto simp: a reminder_rows_Cons split: prod.splits)
    then have "i \<in> fst ` set rest" using Cons.IH Cons.prems(2) by blast
    then show ?thesis by simp
  qed
qed

lemma rows_log_once:
  "distinct (map fst rs) \<Longrightarrow> length (filter (about i) (fst (reminder_rows now b rs db))) \<le> 1"
proof (induction rs arbitrary: db)
  case Nil
  then show ?case by simp
next
  case (Cons a rest)
  obtain j row where a: "a = (j, row)" by (cases a)
  from Cons.prems a have d: "distinct (map fst rest)" and nj: "j \<notin> fst ` set rest" by auto
  have ih: "length (filter (about i) (fst (reminder_rows now b rest d'))) \<le> 1" for d'
    using d by (rule Cons.IH)
  show ?case
  proof (cases "i = j")
    case False
    then have h: "\<not> about i (Sent j)" "\<not> about i (Skipped j)" "\<not> about i (SendRaised j)"
      by (simp_all add: about_def)
    show ?thesis using ih[of db] ih[of "mark_reminded j db"] h
      by (cases "action_of now b row") (auto simp: a reminder_rows_Cons split: prod.splits)
  next
    case True
    have z: "filter (about i) (fst (reminder_rows now b rest d')) = []" for d'
      using rows_log_from_snapshot[of _ now b rest d' i] nj True
      by (auto simp: filter_empty_conv)
    show ?thesis using ih[of db] z[of "mark_reminded j db"]
      by (cases "action_of now b row") (auto simp: a reminder_rows_Cons split: prod.splits)
  qed
qed

text \<open>What a pass does to the table: exactly the events sent or skipped are marked.\<close>

lemma rows_effect:
  "fetchone (fst (snd (reminder_rows now b rs db))) k
     = (if Sent k \<in> set (fst (reminder_rows now b rs db)) \<or>
           Skipped k \<in> set (fst (reminder_rows now b rs db))
        then map_option (\<lambda>r. r\<lparr>reminded := 1\<rparr>) (fetchone db k)
        else fetchone db k)"
proof (induction rs arbitrary: db)
  case Nil
  then show ?case by simp
next
  case (Cons a rest)
  obtain j row where a: "a = (j, row)" by (cases a)
  have idem: "map_option (\<lambda>r. r\<lparr>reminded := 1\<rparr>) (map_option (\<lambda>r. r\<lparr>reminded := 1\<rparr>) x)
      = map_option (\<lambda>r. r\<lparr>reminded := 1\<rparr>) x" for x :: "event option"
    by (cases x) simp_all
  show ?case
  proof (cases "action_of now b row")
    case Passes
    then show ?thesis using Cons.IH[of db] by (simp add: a reminder_rows_Cons)
  next
    case Raises
    then show ?thesis by (simp add: a reminder_rows_Cons)
  next
    case SendRaises
    then show ?thesis by (simp add: a reminder_rows_Cons)
  next
    case Sends
    then show ?thesis using Cons.IH[of "mark_reminded j db"]
      by (auto simp: a reminder_rows_Cons fetchone_mark idem split: prod.splits)
  next
    case Skips
    then show ?thesis using Cons.IH[of "mark_reminded j db"]
      by (auto simp: a reminder_rows_Cons fetchone_mark idem split: prod.splits)
  qed
qed

lemma rows_marked:
  "Sent i \<in> set (fst (reminder_rows now b rs db)) \<or>
   Skipped i \<in> set (fst (reminder_rows now b rs db)) \<Longrightarrow>
   \<not> armed (fst (snd (reminder_rows now b rs db))) i"
  by (auto simp: armed_def rows_effect split: option.splits)

text \<open>
  A row is reached when no row before it raises; the log then has the entry of its action,
  and the pass ends by an exception if its send raises.
\<close>

lemma rows_reached:
  assumes "list_all (\<lambda>(j, r). action_of now b r \<noteq> Raises \<and> action_of now b r \<noteq> SendRaises) pre"
  shows "(action_of now b row = Sends \<longrightarrow>
            Sent i \<in> set (fst (reminder_rows now b (pre @ (i, row) # post) db))) \<and>
         (action_of now b row = Skips \<longrightarrow>
            Skipped i \<in> set (fst (reminder_rows now b (pre @ (i, row) # post) db))) \<and>
         (action_of now b row = SendRaises \<longrightarrow>
            SendRaised i \<in> set (fst (reminder_rows now b (pre @ (i, row) # post) db)) \<and>
            snd (snd (reminder_rows now b (pre @ (i, row) # post) db)))"
  using assms
proof (induction pre arbitrary: db)
  case Nil
  show ?case
    by (cases "action_of now b row") (auto simp: reminder_rows_Cons split: prod.splits)
next
  case (Cons a pre)
  obtain j r where a: "a = (j, r)" by (cases a)
  from Cons.prems a have np: "action_of now b r \<noteq> Raises" "action_of now b r \<noteq> SendRaises"
    and rest: "list_all (\<lambda>(j, r). action_of now b r \<noteq> Raises \<and> action_of now b r \<noteq> SendRaises) pre"
    by simp_all
  show ?case using np Cons.IH[OF rest, of db] Cons.IH[OF rest, of "mark_reminded j db"]
    by (cases "action_of now b r") (auto simp: a reminder_rows_Cons split: prod.splits)
qed

lemma rows_raise_keeps:
  assumes "SendRaised i \<in> set (fst (reminder_rows now b rs db))" and "distinct (map fst rs)"
  shows "fetchone (fst (snd (reminder_rows now b rs db))) i = fetchone db i"
proof -
  let ?log = "fst (reminder_rows now b rs db)"
  have one: "length (filter (about i) ?log) \<le> 1" using assms(2) by (rule rows_log_once)
  have "Sent i \<notin> set ?log \<and> Skipped i \<notin> set ?log"
  proof (rule ccontr)
    assume "\<not> (Sent i \<notin> set ?log \<and> Skipped i \<notin> set ?log)"
    then obtain e where e: "e \<in> set ?log" "e \<noteq> SendRaised i" "about i e"
      by (auto simp: about_def)
    have "{SendRaised i, e} \<subseteq> set (filter (about i) ?log)"
      using assms(1) e by (simp add: about_def)
    then have "card {SendRaised i, e} \<le> card (set (filter (about i) ?log))"
      by (simp add: card_mono)
    also have "\<dots> \<le> length (filter (about i) ?log)" by (rule card_length)
    finally show False using one e(2) by simp
  qed
  then show ?thesis by (simp add: rows_effect)
qed


section \<open>Passes in sequence\<close>

lemma snapshot_distinct:
  "wf_store db \<Longrightarrow>
   distinct (map fst (filter (\<lambda>(i, row). event_time_utc row \<noteq> None \<and> reminded row = 0) (rows db)))"
  by (simp add: wf_store_def ids_def distinct_map_filter)

lemma snapshot_armed:
  assumes "wf_store db"
    and "i \<in> fst ` set (filter (\<lambda>(i, row). event_time_utc row \<noteq> None \<and> reminded row = 0) (rows db))"
  shows "armed db i"
proof -
  from assms(2) obtain row where m: "(i, row) \<in> set (rows db)" and r: "reminded row = 0"
    by auto
  have "distinct (map fst (rows db))" using assms(1) by (simp add: wf_store_def ids_def)
  then have "map_of (rows db) i = Some row" using m by (rule map_of_is_SomeI)
  then show ?thesis using r by (simp add: armed_def fetchone_def)
qed

lemma loop_unarmed_silent:
  assumes "wf_store db" and "\<not> armed db i" and "e \<in> set (fst (reminder_loop now b db))"
  shows "\<not> about i e"
proof
  assume "about i e"
  with assms(3) have "i \<in> fst ` set (filter (\<lambda>(i, row). event_time_utc row \<noteq> None \<and> reminded row = 0) (rows db))"
    unfolding reminder_loop_def by (rule rows_log_from_snapshot)
  with assms(1) have "armed db i" by (rule snapshot_armed)
  with assms(2) show False by simp
qed

lemma loop_wf: "wf_store db \<Longrightarrow> wf_store (fst (snd (reminder_loop now b db)))"
  by (simp add: wf_store_def reminder_loop_def rows_keep_ids)

lemma loop_keeps_unarmed:
  "\<not> armed db k \<Longrightarrow> \<not> armed (fst (snd (reminder_loop now b db))) k"
  unfolding reminder_loop_def by (rule rows_keep_unarmed)

lemma loop_log_once:
  "wf_store db \<Longrightarrow> length (filter (about i) (fst (reminder_loop now b db))) \<le> 1"
  unfolding reminder_loop_def by (rule rows_log_once) (rule snapshot_distinct)

lemma loop_marked:
  "Sent i \<in> set (fst (reminder_loop now b db)) \<or> Skipped i \<in> set (fst (reminder_loop now b db))
   \<Longrightarrow> \<not> armed (fst (snd (reminder_loop now b db))) i"
  unfolding reminder_loop_def by (rule rows_marked)

lemma snapshot_split:
  assumes "rows db = pre @ (i, row) # post" and "candidate row"
  shows "filter (\<lambda>(i, row). event_time_utc row \<noteq> None \<and> reminded row = 0) (rows db)
           = filter (\<lambda>(i, row). event_time_utc row \<noteq> None \<and> reminded row = 0) pre @
             (i, row) #
             filter (\<lambda>(i, row). event_time_utc row \<noteq> None \<and> reminded row = 0) post"
  using assms by (simp add: candidate_def)

lemma snapshot_unblocked:
  assumes "list_all (\<lambda>(j, r). \<not> blocks now b r) pre"
  shows "list_all (\<lambda>(j, r). action_of now b r \<noteq> Raises \<and> action_of now b r \<noteq> SendRaises)
           (filter (\<lambda>(i, row). event_time_utc row \<noteq> None \<and> reminded row = 0) pre)"
  using assms by (auto simp: list_all_iff blocks_def candidate_def)

lemma loop_reached:
  assumes "rows db = pre @ (i, row) # post" and "candidate row"
    and "list_all (\<lambda>(j, r). \<not> blocks now b r) pre"
  shows "(action_of now b row = Sends \<longrightarrow> Sent i \<in> set (fst (reminder_loop now b db))) \<and>
         (action_of now b row = Skips \<longrightarrow> Skipped i \<in> set (fst (reminder_loop now b db))) \<and>
         (action_of now b row = SendRaises \<longrightarrow>
            SendRaised i \<in> set (fst (reminder_loop now b db)) \<and>
            snd (snd (reminder_loop now b db)))"
  unfolding reminder_loop_def snapshot_split[OF assms(1,2)]
  using snapshot_unblocked[OF assms(3)] by (rule rows_reached)

lemma loop_effect:
  "fetchone (fst (snd (reminder_loop now b db))) k
     = (if Sent k \<in> set (fst (reminder_loop now b db)) \<or>
           Skipped k \<in> set (fst (reminder_loop now b db))
        then map_option (\<lambda>r. r\<lparr>reminded := 1\<rparr>) (fetchone db k)
        else fetchone db k)"
  unfolding reminder_loop_def by (rule rows_effect)

lemma loop_raise_keeps:
  assumes "wf_store db" and "SendRaised i \<in> set (fst (reminder_loop now b db))"
  shows "fetchone (fst (snd (reminder_loop now b db))) i = fetchone db i"
  using assms(2) snapshot_distinct[OF assms(1)]
  unfolding reminder_loop_def by (rule rows_raise_keeps)

lemma fetchone_in_rows:
  assumes "wf_store db" and "rows db = pre @ (i, row) # post"
  shows "fetchone db i = Some row"
proof -
  have "distinct (map fst (rows db))" using assms(1) by (simp add: wf_store_def ids_def)
  moreover have "(i, row) \<in> set (rows db)" using assms(2) by simp
  ultimately show ?thesis unfolding fetchone_def by (rule map_of_is_SomeI)
qed

lemma run_scans_Cons:
  "run_scans ((now, b) # ss) db =
     (fst (reminder_loop now b db) @ fst (run_scans ss (fst (snd (reminder_loop now b db)))),
      snd (run_scans ss (fst (snd (reminder_loop now b db)))))"
  by (simp split: prod.splits)

lemma scans_unarmed_silent:
  assumes "wf_store db" and "\<not> armed db i"
  shows "filter (about i) (fst (run_scans ss db)) = []"
  using assms
proof (induction ss arbitrary: db)
  case Nil
  then show ?case by simp
next
  case (Cons s ss)
  obtain now b where s: "s = (now, b)" by (cases s)
  have 1: "filter (about i) (fst (reminder_loop now b db)) = []"
    using loop_unarmed_silent[OF Cons.prems] by (auto simp: filter_empty_conv)
  have "wf_store (fst (snd (reminder_loop now b db)))" using Cons.prems(1) by (rule loop_wf)
  moreover have "\<not> armed (fst (snd (reminder_loop now b db))) i"
    using Cons.prems(2) by (rule loop_keeps_unarmed)
  ultimately have "filter (about i) (fst (run_scans ss (fst (snd (reminder_loop now b db))))) = []"
    by (rule Cons.IH)
  with 1 show ?case by (simp add: s run_scans_Cons del: run_scans.simps)
qed

lemma filter_length_mono:
  "(\<And>x. P x \<Longrightarrow> Q x) \<Longrightarrow> length (filter P xs) \<le> length (filter Q xs)"
  by (induction xs) auto

lemma count_about:
  "deliveries i log \<le> length (filter (about i) log)"
  "send_calls i log \<le> length (filter (about i) log)"
  unfolding deliveries_def send_calls_def
  by (rule filter_length_mono; auto simp: about_def)+

lemma count_silent:
  assumes "filter (about i) log = []"
  shows "deliveries i log = 0" and "send_calls i log = 0"
  using count_about[of i log] assms by simp_all

lemma count_append:
  "deliveries i (xs @ ys) = deliveries i xs + deliveries i ys"
  "send_calls i (xs @ ys) = send_calls i xs + send_calls i ys"
  by (simp_all add: deliveries_def send_calls_def)

lemma scans_deliver_once: "wf_store db \<Longrightarrow> deliveries i (fst (run_scans ss db)) \<le> 1"
proof (induction ss arbitrary: db)
  case Nil
  then show ?case by (simp add: deliveries_def)
next
  case (Cons s ss)
  obtain now b where s: "s = (now, b)" by (cases s)
  let ?log = "fst (reminder_loop now b db)" and ?db = "fst (snd (reminder_loop now b db))"
  have w: "wf_store ?db" using Cons.prems by (rule loop_wf)
  have one: "deliveries i ?log \<le> 1"
    using count_about(1)[of i ?log] loop_log_once[OF Cons.prems, of i now b] by simp
  show ?case
  proof (cases "Sent i \<in> set ?log")
    case True
    then have "\<not> armed ?db i" using loop_marked by blast
    with w have "filter (about i) (fst (run_scans ss ?db)) = []" by (rule scans_unarmed_silent)
    then have "deliveries i (fst (run_scans ss ?db)) = 0" by (rule count_silent)
    with one show ?thesis by (simp add: s run_scans_Cons count_append del: run_scans.simps)
  next
    case False
    then have "deliveries i ?log = 0" by (auto simp: deliveries_def filter_empty_conv)
    with Cons.IH[OF w] show ?thesis
      by (simp add: s run_scans_Cons count_append del: run_scans.simps)
  qed
qed

lemma scans_call_once:
  assumes "wf_store db" and "SendRaised i \<notin> set (fst (run_scans ss db))"
  shows "send_calls i (fst (run_scans ss db)) \<le> 1"
  using assms
proof (induction ss arbitrary: db)
  case Nil
  then show ?case by (simp add: send_calls_def)
next
  case (Cons s ss)
  obtain now b where s: "s = (now, b)" by (cases s)
  let ?log = "fst (reminder_loop now b db)" and ?db = "fst (snd (reminder_loop now b db))"
  have w: "wf_store ?db" using Cons.prems(1) by (rule loop_wf)
  have nr: "SendRaised i \<notin> set ?log" and nr': "SendRaised i \<notin> set (fst (run_scans ss ?db))"
    using Cons.prems(2) by (simp_all add: s run_scans_Cons del: run_scans.simps)
  have one: "send_calls i ?log \<le> 1"
    using count_about(2)[of i ?log] loop_log_once[OF Cons.prems(1), of i now b] by simp
  show ?case
  proof (cases "Sent i \<in> set ?log")
    case True
    then have "\<not> armed ?db i" using loop_marked by blast
    with w have "filter (about i) (fst (run_scans ss ?db)) = []" by (rule scans_unarmed_silent)
    then have "send_calls i (fst (run_scans ss ?db)) = 0" by (rule count_silent)
    with one show ?thesis by (simp add: s run_scans_Cons count_append del: run_scans.simps)
  next
    case False
    with nr have "send_calls i ?log = 0" by (auto simp: send_calls_def filter_empty_conv)
    with Cons.IH[OF w nr'] show ?thesis
      by (simp add: s run_scans_Cons count_append del: run_scans.simps)
  qed
qed


section \<open>Identifiers\<close>

text \<open>
  Claim C8. In every session that starts with the empty table, the identifiers that the
  successful creations return are strictly increasing in the order of creation, hence
  pairwise different; and an identifier that is in the table at any moment of the session,
  whether or not it is deleted later, is not returned by any later creation.
\<close>

theorem created_ids_increasing_never_reused:
  "sorted_wrt (<) (created_ids (fst (run sp cs init_db))) \<and>
   list_all
     (\<lambda>d. d \<notin> set (created_ids (fst (run sp (drop n cs) (snd (run sp (take n cs) init_db))))))
     (ids (snd (run sp (take n cs) init_db)))"
proof
  show "sorted_wrt (<) (created_ids (fst (run sp cs init_db)))"
    by (rule run_created_sorted)
next
  let ?db = "snd (run sp (take n cs) init_db)"
  have w: "wf_store ?db" using wf_init_db by (rule run_wf)
  have "d \<notin> set (created_ids (fst (run sp (drop n cs) ?db)))" if d: "d \<in> set (ids ?db)" for d
  proof
    assume "d \<in> set (created_ids (fst (run sp (drop n cs) ?db)))"
    then have "sqlite_sequence ?db < d" by (rule run_created_above)
    moreover have "d \<le> sqlite_sequence ?db" using w d by (rule wf_store_bound)
    ultimately show False by simp
  qed
  then show "list_all
     (\<lambda>d. d \<notin> set (created_ids (fst (run sp (drop n cs) ?db)))) (ids ?db)"
    by (simp add: list_all_iff)
qed

text \<open>
  In the sample session the creations return 1, 2 and 3; after the deletion of event 1 the
  table holds event 2 only.
\<close>

theorem created_ids_increasing_never_reused_witness:
  "created_ids (fst (run demo_strptime demo_session init_db)) = [1, 2, 3] \<and>
   ids (snd (run demo_strptime (take 3 demo_session) init_db)) = [2] \<and>
   sorted_wrt (<) (created_ids (fst (run demo_strptime demo_session init_db))) \<and>
   list_all
     (\<lambda>d. d \<notin> set (created_ids (fst (run demo_strptime (drop 3 demo_session)
                  (snd (run demo_strptime (take 3 demo_session) init_db))))))
     (ids (snd (run demo_strptime (take 3 demo_session) init_db)))"
proof -
  have a: "created_ids (fst (run demo_strptime demo_session init_db)) = [1, 2, 3]"
    by (simp add: demo_session_def demo_create init_db_def max_rowid_def delete_event_def
        fetchone_def delete_where_id_def ctx_of_fields demo_event_def)
  have b: "ids (snd (run demo_strptime (take 3 demo_session) init_db)) = [2]"
    by (simp add: demo_session_def demo_create init_db_def max_rowid_def delete_event_def
        fetchone_def delete_where_id_def ctx_of_fields demo_event_def ids_def)
  show ?thesis
    using a b created_ids_increasing_never_reused [of demo_strptime demo_session 3]
    by blast
qed


section \<open>Setting the reminder\<close>

text \<open>
  Claim C5. For an existing event, \<open>set_reminder\<close> with minutes from 0 to 1440 succeeds,
  stores the minutes and resets \<open>reminded\<close> to 0 whatever it was, and changes nothing else;
  with minutes outside that range it is rejected and the table is as before.
\<close>

theorem set_reminder_rearms:
  assumes "fetchone db i = Some row"
  shows "(0 \<le> m \<and> m \<le> 1440 \<longrightarrow>
            fst (set_reminder c i m db) = ReminderSet \<and>
            fetchone (snd (set_reminder c i m db)) i
              = Some (row\<lparr>remind_minutes := Some m, reminded := 0\<rparr>) \<and>
            armed (snd (set_reminder c i m db)) i \<and>
            (\<forall>k. k \<noteq> i \<longrightarrow> fetchone (snd (set_reminder c i m db)) k = fetchone db k)) \<and>
         (m < 0 \<or> 1440 < m \<longrightarrow> set_reminder c i m db = (OutOfRange, db))"
  using assms by (simp add: set_reminder_def fetchone_update armed_def)

text \<open>
  The sample event, already reminded, is armed again by 15 minutes; 2000 minutes are
  rejected.
\<close>

theorem set_reminder_rearms_witness:
  "fetchone (update_where_id (\<lambda>r. r\<lparr>reminded := 1\<rparr>) 1 demo_db) 1
     = Some (demo_event\<lparr>reminded := 1\<rparr>) \<and>
   fetchone (snd (set_reminder (ctx_of (ustr ''Alice'')) 1 15
       (update_where_id (\<lambda>r. r\<lparr>reminded := 1\<rparr>) 1 demo_db))) 1
     = Some (demo_event\<lparr>remind_minutes := Some 15, reminded := 0\<rparr>) \<and>
   set_reminder (ctx_of (ustr ''Alice'')) 1 2000 demo_db = (OutOfRange, demo_db)"
proof -
  have f: "fetchone (update_where_id (\<lambda>r. r\<lparr>reminded := 1\<rparr>) 1 demo_db) 1
      = Some (demo_event\<lparr>reminded := 1\<rparr>)"
    by (simp add: fetchone_update fetchone_demo_db)
  show ?thesis
    using f set_reminder_rearms [OF f, of 15 "ctx_of (ustr ''Alice'')"]
      set_reminder_rearms [OF fetchone_demo_db, of 2000 "ctx_of (ustr ''Alice'')"]
    by simp
qed


section \<open>Leaving an event\<close>

text \<open>
  Claim C9. When the author of \<open>leave_event\<close> is among the participants of the event, the
  participants afterwards are the former ones without that name, in the same order; the
  manager is cleared if it was that name and is kept otherwise; nothing else changes. When
  the author is not among the participants, the answer is that they are no member and the
  table is as before.
\<close>

theorem leave_event_removes_name:
  assumes "fetchone db i = Some row"
  shows "(display_name c \<in> set (names_to_list (participants row)) \<longrightarrow>
            fst (leave_event c i db)
              = Left (manager row = None \<or> manager row = Some (display_name c)) \<and>
            fetchone (snd (leave_event c i db)) i
              = Some (row\<lparr>participants :=
                            Some (list_to_names
                              (filter (\<lambda>p. p \<noteq> display_name c) (names_to_list (participants row)))),
                          manager :=
                            (if manager row = Some (display_name c) then None else manager row)\<rparr>) \<and>
            participants_of (snd (leave_event c i db)) i
              = filter (\<lambda>p. p \<noteq> display_name c) (names_to_list (participants row)) \<and>
            manager_of (snd (leave_event c i db)) i
              = (if manager row = Some (display_name c) then None else manager row) \<and>
            (\<forall>k. k \<noteq> i \<longrightarrow> fetchone (snd (leave_event c i db)) k = fetchone db k)) \<and>
         (display_name c \<notin> set (names_to_list (participants row)) \<longrightarrow>
            leave_event c i db = (NotMember, db))"
proof (cases "display_name c \<in> set (names_to_list (participants row))")
  case False
  with assms show ?thesis by (simp add: leave_event_def)
next
  case True
  let ?new = "row\<lparr>participants :=
                    Some (list_to_names
                      (filter (\<lambda>p. p \<noteq> display_name c) (names_to_list (participants row)))),
                  manager := (if manager row = Some (display_name c) then None else manager row)\<rparr>"
  have l: "leave_event c i db =
      (Left (manager row = None \<or> manager row = Some (display_name c)),
       update_where_id
         (\<lambda>r. r\<lparr>participants :=
                   Some (list_to_names
                     (filter (\<lambda>p. p \<noteq> display_name c) (names_to_list (participants row)))),
                 manager := (if manager row = Some (display_name c) then None else manager row)\<rparr>)
         i db)"
    using assms True by (auto simp: leave_event_def Let_def)
  have f: "fetchone (snd (leave_event c i db)) i = Some ?new"
    using assms by (simp add: l fetchone_update)
  have p: "participants_of (snd (leave_event c i db)) i
      = filter (\<lambda>p. p \<noteq> display_name c) (names_to_list (participants row))"
    by (simp add: participants_of_def f reread_parts)
  have m: "manager_of (snd (leave_event c i db)) i
      = (if manager row = Some (display_name c) then None else manager row)"
    by (simp add: manager_of_def f)
  have o: "\<forall>k. k \<noteq> i \<longrightarrow> fetchone (snd (leave_event c i db)) k = fetchone db k"
    by (simp add: l fetchone_update)
  show ?thesis using True l f p m o by simp
qed

text \<open>
  Alice, proposer and manager of the sample event, leaves: no participant and no manager
  remain. Bob, who is no participant, cannot leave.
\<close>

theorem leave_event_removes_name_witness:
  "fetchone demo_db 1 = Some demo_event \<and>
   ustr ''Alice'' \<in> set (names_to_list (participants demo_event)) \<and>
   participants_of (snd (leave_event (ctx_of (ustr ''Alice'')) 1 demo_db)) 1 = [] \<and>
   manager_of (snd (leave_event (ctx_of (ustr ''Alice'')) 1 demo_db)) 1 = None \<and>
   ustr ''Bob'' \<notin> set (names_to_list (participants demo_event)) \<and>
   leave_event (ctx_of (ustr ''Bob'')) 1 demo_db = (NotMember, demo_db)"
  using leave_event_removes_name [OF fetchone_demo_db, of "ctx_of (ustr ''Alice'')"]
    leave_event_removes_name [OF fetchone_demo_db, of "ctx_of (ustr ''Bob'')"]
  by (simp add: fetchone_demo_db names_of_demo_event ctx_of_fields)
     (simp add: demo_event_def ustr_def)


section \<open>Creating an event\<close>







section \<open>Participants and manager\<close>

text \<open>
  Claim C3, as the code has it. An event is created by an author whose display name has no
  comma and no leading or trailing whitespace, and then any commands run, joins and leaves
  among them, in which every author who joins or creates has such a name. Then at every
  moment the participants of the event, as the handlers read them, are pairwise different.
\<close>

theorem participants_distinct:
  assumes "create_event sp c payload db = (Created i, db1)" and "wf_store db"
    and "plain_name (display_name c)" and "list_all names_plain cs"
  shows "distinct (participants_of (snd (run sp (take n cs) db1)) i)"
  using session_event_inv[OF assms, of n]
  by (simp add: event_inv_def event_ok_def participants_of_def split: option.splits)

text \<open>
  Alice creates the sample event; Bob joins twice and Alice leaves: Bob alone remains.
\<close>

theorem participants_distinct_witness:
  "create_event demo_strptime (ctx_of (ustr ''Alice'')) demo_payload init_db
     = (Created 1, demo_db) \<and>
   wf_store init_db \<and> plain_name (display_name (ctx_of (ustr ''Alice''))) \<and>
   list_all names_plain
     [JoinEvent (ctx_of (ustr ''Bob'')) 1, JoinEvent (ctx_of (ustr ''Bob'')) 1,
      LeaveEvent (ctx_of (ustr ''Alice'')) 1] \<and>
   distinct (participants_of (snd (run demo_strptime
     (take 3 [JoinEvent (ctx_of (ustr ''Bob'')) 1, JoinEvent (ctx_of (ustr ''Bob'')) 1,
              LeaveEvent (ctx_of (ustr ''Alice'')) 1]) demo_db)) 1)"
proof -
  have a: "create_event demo_strptime (ctx_of (ustr ''Alice'')) demo_payload init_db
      = (Created 1, demo_db)"
    by (simp add: demo_create init_db_def max_rowid_def demo_db_def demo_event_def)
  have b: "plain_name (display_name (ctx_of (ustr ''Alice'')))"
    by (simp add: ctx_of_fields plain_name_def trimmed_def isspace_def ustr_def)
  have c: "list_all names_plain
     [JoinEvent (ctx_of (ustr ''Bob'')) 1, JoinEvent (ctx_of (ustr ''Bob'')) 1,
      LeaveEvent (ctx_of (ustr ''Alice'')) 1]"
    by (simp add: ctx_of_fields plain_name_def trimmed_def isspace_def ustr_def)
  show ?thesis
    using a b c wf_init_db participants_distinct [OF a wf_init_db b c, of 3] by blast
qed

text \<open>
  Claim C3 as stated fails for a display name with a comma: after Alice has created the
  sample event, the author named \<open>Bob,Alice\<close> is no participant and joins, and the
  participants are read back as Alice, Bob, Alice. A name that begins with a space does the
  same: Alice with a space in front joins, and Alice is read back twice.
\<close>

theorem join_unclean_name_duplicates:
  "create_event demo_strptime (ctx_of (ustr ''Alice'')) demo_payload init_db
     = (Created 1, demo_db) \<and>
   participants_of (snd (run demo_strptime [JoinEvent (ctx_of (ustr ''Bob,Alice'')) 1] demo_db)) 1
     = [ustr ''Alice'', ustr ''Bob'', ustr ''Alice''] \<and>
   \<not> distinct
       (participants_of
          (snd (run demo_strptime [JoinEvent (ctx_of (ustr ''Bob,Alice'')) 1] demo_db)) 1) \<and>
   participants_of (snd (run demo_strptime [JoinEvent (ctx_of (ustr '' Alice'')) 1] demo_db)) 1
     = [ustr ''Alice'', ustr ''Alice'']"
proof -
  have j2: "join_event (ctx_of (ustr '' Alice'')) 1 demo_db =
      (Joined, \<lparr>rows = [(1, demo_event\<lparr>participants := Some (ustr ''Alice,  Alice'')\<rparr>)],
                sqlite_sequence = 1\<rparr>)"
    by (simp add: join_event_def fetchone_demo_db names_of_demo_event ctx_of_fields
        Let_def ustr_def)
       (simp add: update_where_id_def demo_db_def list_to_names_def)
  have p2: "names_to_list (Some (ustr ''Alice,  Alice'')) = [ustr ''Alice'', ustr ''Alice'']"
    by (simp add: names_to_list_Some py_strip_def isspace_def ustr_def)
  have w: "participants_of
      (snd (run demo_strptime [JoinEvent (ctx_of (ustr '' Alice'')) 1] demo_db)) 1
      = [ustr ''Alice'', ustr ''Alice'']"
    by (simp add: j2 participants_of_def fetchone_def p2)
  have a: "create_event demo_strptime (ctx_of (ustr ''Alice'')) demo_payload init_db
      = (Created 1, demo_db)"
    by (simp add: demo_create init_db_def max_rowid_def demo_db_def demo_event_def)
  have j: "join_event (ctx_of (ustr ''Bob,Alice'')) 1 demo_db =
      (Joined, \<lparr>rows = [(1, demo_event\<lparr>participants := Some (ustr ''Alice, Bob,Alice'')\<rparr>)],
                sqlite_sequence = 1\<rparr>)"
    by (simp add: join_event_def fetchone_demo_db names_of_demo_event ctx_of_fields
        Let_def ustr_def)
       (simp add: update_where_id_def demo_db_def list_to_names_def)
  have p: "names_to_list (Some (ustr ''Alice, Bob,Alice''))
      = [ustr ''Alice'', ustr ''Bob'', ustr ''Alice'']"
    by (simp add: names_to_list_Some py_strip_def isspace_def ustr_def)
  have "participants_of
      (snd (run demo_strptime [JoinEvent (ctx_of (ustr ''Bob,Alice'')) 1] demo_db)) 1
      = [ustr ''Alice'', ustr ''Bob'', ustr ''Alice'']"
    by (simp add: j participants_of_def fetchone_def p)
  with a w show ?thesis by simp
qed





section \<open>The reminder threshold\<close>

lemmas pass_eval =
  reminder_loop_def reminder_rows_Cons action_of_def remind_at_def or_default_def
  datetime_ok_def min_datetime_def max_datetime_def fmt_dt_local_raises_def
  resolve_channel_def send_fails_def mark_reminded_def update_where_id_def
  demo_bot_def failing_bot_def demo_event_def demo_db_def demo_db2_def

text \<open>
  Claim C1, where the code departs from it. \<open>set_reminder\<close> accepts 0 minutes for the
  sample event, whose time is 1755689400000000. The claim puts the threshold at the event
  time itself. The loop reads \<open>remind_minutes or 30\<close>, takes 30 minutes for the stored 0, and
  at a pass half an hour before the event time, which is earlier than the threshold of
  the claim, sends the reminder and marks the event.
\<close>

theorem zero_offset_fires_early:
  "set_reminder (ctx_of (ustr ''Alice'')) 1 0 demo_db
     = (ReminderSet,
        \<lparr>rows = [(1, demo_event\<lparr>remind_minutes := Some 0\<rparr>)], sqlite_sequence = 1\<rparr>) \<and>
   remind_at (demo_event\<lparr>remind_minutes := Some 0\<rparr>) 1755689400000000
     = Some (1755689400000000 - 30 * 60000000) \<and>
   1755689400000000 - 30 * 60000000 < (1755689400000000 - 0 * 60000000 :: int) \<and>
   reminder_loop (1755689400000000 - 30 * 60000000) demo_bot
       \<lparr>rows = [(1, demo_event\<lparr>remind_minutes := Some 0\<rparr>)], sqlite_sequence = 1\<rparr>
     = ([Sent 1],
        \<lparr>rows = [(1, demo_event\<lparr>remind_minutes := Some 0, reminded := 1\<rparr>)],
         sqlite_sequence = 1\<rparr>,
        False)"
proof -
  have a: "set_reminder (ctx_of (ustr ''Alice'')) 1 0 demo_db
     = (ReminderSet,
        \<lparr>rows = [(1, demo_event\<lparr>remind_minutes := Some 0\<rparr>)], sqlite_sequence = 1\<rparr>)"
    by (simp add: set_reminder_def fetchone_demo_db)
       (simp add: update_where_id_def demo_db_def demo_event_def)
  have b: "remind_at (demo_event\<lparr>remind_minutes := Some 0\<rparr>) 1755689400000000
     = Some (1755689400000000 - 30 * 60000000)"
    by (simp add: remind_at_def or_default_def datetime_ok_def min_datetime_def
        max_datetime_def)
  have c: "reminder_loop (1755689400000000 - 30 * 60000000) demo_bot
       \<lparr>rows = [(1, demo_event\<lparr>remind_minutes := Some 0\<rparr>)], sqlite_sequence = 1\<rparr>
     = ([Sent 1],
        \<lparr>rows = [(1, demo_event\<lparr>remind_minutes := Some 0, reminded := 1\<rparr>)],
         sqlite_sequence = 1\<rparr>,
        False)"
    by (simp add: pass_eval)
  from a b c show ?thesis by simp
qed


section \<open>Delivery of a reminder\<close>

text \<open>
  Claim C6, as the code has it. Over any number of consecutive passes of the loop, with no
  command between them, a send for a given event returns at most once; and if no send for
  the event raises, the sink is called for it at most once.
\<close>

theorem at_most_one_delivery:
  assumes "wf_store db"
  shows "deliveries i (fst (run_scans ss db)) \<le> 1 \<and>
         (SendRaised i \<notin> set (fst (run_scans ss db)) \<longrightarrow>
            send_calls i (fst (run_scans ss db)) \<le> 1)"
  using assms scans_deliver_once scans_call_once by blast

lemma demo_db_wf: "wf_store demo_db"
  by (simp add: wf_store_def demo_db_def ids_def)

lemma demo_pass_delivers:
  "reminder_loop 1755689400000000 demo_bot demo_db
     = ([Sent 1], \<lparr>rows = [(1, demo_event\<lparr>reminded := 1\<rparr>)], sqlite_sequence = 1\<rparr>, False)"
  by (simp add: pass_eval)

lemma demo_pass_raises:
  "reminder_loop 1755689400000000 failing_bot demo_db = ([SendRaised 1], demo_db, True)"
  by (simp add: pass_eval)

lemma demo_pass_silent:
  "reminder_loop now b \<lparr>rows = [(1, demo_event\<lparr>reminded := 1\<rparr>)], sqlite_sequence = 1\<rparr>
     = ([], \<lparr>rows = [(1, demo_event\<lparr>reminded := 1\<rparr>)], sqlite_sequence = 1\<rparr>, False)"
  by (simp add: reminder_loop_def)

text \<open>
  Two passes over the sample table at the time of the event, the channel taking messages:
  the first sends, the second finds nothing to do.
\<close>

theorem at_most_one_delivery_witness:
  "wf_store demo_db \<and>
   fst (run_scans [(1755689400000000, demo_bot), (1755689430000000, demo_bot)] demo_db)
     = [Sent 1] \<and>
   deliveries 1
     (fst (run_scans [(1755689400000000, demo_bot), (1755689430000000, demo_bot)] demo_db)) \<le> 1 \<and>
   send_calls 1
     (fst (run_scans [(1755689400000000, demo_bot), (1755689430000000, demo_bot)] demo_db)) \<le> 1"
proof -
  have l: "fst (run_scans [(1755689400000000, demo_bot), (1755689430000000, demo_bot)] demo_db)
      = [Sent 1]"
    by (simp add: demo_pass_delivers demo_pass_silent)
  show ?thesis
    using demo_db_wf l
      at_most_one_delivery
        [OF demo_db_wf, of 1 "[(1755689400000000, demo_bot), (1755689430000000, demo_bot)]"]
    by simp
qed

text \<open>
  Claim C6 as stated fails when a send raises: the event is not marked, and the next pass
  calls the sink for it again. Here neither the event time nor the offset changes, and the
  sink is called twice.
\<close>

theorem raised_send_is_repeated:
  "fst (run_scans [(1755689400000000, failing_bot), (1755689430000000, demo_bot)] demo_db)
     = [SendRaised 1, Sent 1] \<and>
   send_calls 1
     (fst (run_scans [(1755689400000000, failing_bot), (1755689430000000, demo_bot)] demo_db))
     = 2"
proof -
  have p: "reminder_loop 1755689430000000 demo_bot demo_db
     = ([Sent 1], \<lparr>rows = [(1, demo_event\<lparr>reminded := 1\<rparr>)], sqlite_sequence = 1\<rparr>, False)"
    by (simp add: pass_eval)
  show ?thesis by (simp add: demo_pass_raises p send_calls_def)
qed

text \<open>
  Claim C7, as the code has it. An event is in the table, not yet reminded, its threshold
  is crossed at the time of a pass, and no row before it in the table ends the pass by an
  exception, so that the pass reaches it. If its channel is not messageable, the send is
  skipped and the event is marked as reminded. If its channel is messageable and the send
  returns, the event is marked as reminded. In both cases this holds whether or not a
  later row ends the pass by an exception, and no later pass sends, skips or tries the
  event again. If instead the send for the event raises, the pass ends there by the
  exception and the row of the event is as it was, still to be reminded.
\<close>

theorem marked_when_reached:
  assumes "wf_store db" and "rows db = pre @ (i, row) # post" and "reminded row = 0"
    and "due now row" and "list_all (\<lambda>(j, r). \<not> blocks now b r) pre"
    and "reminder_loop now b db = (log, db', raised)"
  shows "(\<not> is_messageable (resolve_channel b row) \<longrightarrow>
            Skipped i \<in> set log \<and> fetchone db' i = Some (row\<lparr>reminded := 1\<rparr>) \<and>
            filter (about i) (fst (run_scans ss db')) = []) \<and>
         (is_messageable (resolve_channel b row) \<and>
          \<not> fmt_dt_local_raises (event_time_utc row) \<and>
          \<not> send_fails (resolve_channel b row) \<longrightarrow>
            Sent i \<in> set log \<and> fetchone db' i = Some (row\<lparr>reminded := 1\<rparr>) \<and>
            filter (about i) (fst (run_scans ss db')) = []) \<and>
         (is_messageable (resolve_channel b row) \<and>
          \<not> fmt_dt_local_raises (event_time_utc row) \<and>
          send_fails (resolve_channel b row) \<longrightarrow>
            SendRaised i \<in> set log \<and> raised \<and> fetchone db' i = Some row)"
proof -
  have f: "fetchone db i = Some row" using assms(1,2) by (rule fetchone_in_rows)
  have c: "candidate row"
    using assms(3,4) by (auto simp: candidate_def due_def split: option.splits)
  have l: "fst (reminder_loop now b db) = log" "fst (snd (reminder_loop now b db)) = db'"
    "snd (snd (reminder_loop now b db)) = raised"
    using assms(6) by simp_all
  note reach = loop_reached[OF assms(2) c assms(5), unfolded l]
  note eff = loop_effect[of now b db i, unfolded l f]
  have w: "wf_store db'" using loop_wf[OF assms(1), of now b] l by simp
  have marked: "fetchone db' i = Some (row\<lparr>reminded := 1\<rparr>) \<and>
      filter (about i) (fst (run_scans ss db')) = []"
    if "Sent i \<in> set log \<or> Skipped i \<in> set log"
  proof -
    have m: "fetchone db' i = Some (row\<lparr>reminded := 1\<rparr>)" using eff that by auto
    then have "\<not> armed db' i" by (simp add: armed_def)
    with w have "filter (about i) (fst (run_scans ss db')) = []" by (rule scans_unarmed_silent)
    with m show ?thesis by simp
  qed
  have 1: "\<not> is_messageable (resolve_channel b row) \<longrightarrow>
            Skipped i \<in> set log \<and> fetchone db' i = Some (row\<lparr>reminded := 1\<rparr>) \<and>
            filter (about i) (fst (run_scans ss db')) = []"
    using action_of_cases(1)[OF assms(4), of b] reach marked by blast
  have 2: "is_messageable (resolve_channel b row) \<and>
          \<not> fmt_dt_local_raises (event_time_utc row) \<and>
          \<not> send_fails (resolve_channel b row) \<longrightarrow>
            Sent i \<in> set log \<and> fetchone db' i = Some (row\<lparr>reminded := 1\<rparr>) \<and>
            filter (about i) (fst (run_scans ss db')) = []"
    using action_of_cases(2)[OF assms(4), of b] reach marked by blast
  have 3: "is_messageable (resolve_channel b row) \<and>
          \<not> fmt_dt_local_raises (event_time_utc row) \<and>
          send_fails (resolve_channel b row) \<longrightarrow>
            SendRaised i \<in> set log \<and> raised \<and> fetchone db' i = Some row"
  proof
    assume h: "is_messageable (resolve_channel b row) \<and>
          \<not> fmt_dt_local_raises (event_time_utc row) \<and>
          send_fails (resolve_channel b row)"
    then have "action_of now b row = SendRaises"
      using action_of_cases(3)[OF assms(4), of b] by blast
    with reach have r: "SendRaised i \<in> set log" and x: raised by simp_all
    have "SendRaised i \<in> set (fst (reminder_loop now b db))" using r l by simp
    with assms(1) have "fetchone (fst (snd (reminder_loop now b db))) i = fetchone db i"
      by (rule loop_raise_keeps)
    then have "fetchone db' i = Some row" using l f by simp
    with r x show "SendRaised i \<in> set log \<and> raised \<and> fetchone db' i = Some row" by simp
  qed
  from 1 2 3 show ?thesis by blast
qed

lemma demo_db2_wf: "wf_store demo_db2"
  by (simp add: wf_store_def demo_db2_def ids_def)

lemma demo_pass_skips_then_raises:
  "reminder_loop 1755689400000000 failing_bot demo_db2
     = ([Skipped 1, SendRaised 2],
        \<lparr>rows = [(1, demo_event\<lparr>channel_id := Some 8, reminded := 1\<rparr>), (2, demo_event)],
         sqlite_sequence = 2\<rparr>,
        True)"
  by (simp add: pass_eval)

lemma demo_due: "due 1755689400000000 (demo_event\<lparr>channel_id := c\<rparr>)"
  by (simp add: due_def remind_at_def or_default_def datetime_ok_def min_datetime_def
      max_datetime_def demo_event_def)

text \<open>
  The table of two events at the time of both, every send on channel 7 raising. The first
  event, whose channel the bot does not know, is skipped and marked though the pass ends by
  the exception of the second; no later pass touches it. The second event, reached after
  the first, stays as it was. With a channel that takes messages the sample event is sent
  and marked.
\<close>

theorem marked_when_reached_witness:
  "wf_store demo_db2 \<and>
   rows demo_db2 = [] @ (1, demo_event\<lparr>channel_id := Some 8\<rparr>) # [(2, demo_event)] \<and>
   \<not> is_messageable (resolve_channel failing_bot (demo_event\<lparr>channel_id := Some 8\<rparr>)) \<and>
   Skipped 1 \<in> set [Skipped 1, SendRaised 2] \<and>
   fetchone
     \<lparr>rows = [(1, demo_event\<lparr>channel_id := Some 8, reminded := 1\<rparr>), (2, demo_event)],
      sqlite_sequence = 2\<rparr> 1
     = Some (demo_event\<lparr>channel_id := Some 8, reminded := 1\<rparr>) \<and>
   filter (about 1)
     (fst (run_scans [(1755689430000000, demo_bot)]
        \<lparr>rows = [(1, demo_event\<lparr>channel_id := Some 8, reminded := 1\<rparr>), (2, demo_event)],
         sqlite_sequence = 2\<rparr>)) = [] \<and>
   rows demo_db2 = [(1, demo_event\<lparr>channel_id := Some 8\<rparr>)] @ (2, demo_event) # [] \<and>
   list_all (\<lambda>(j, r). \<not> blocks 1755689400000000 failing_bot r)
     [(1, demo_event\<lparr>channel_id := Some 8\<rparr>)] \<and>
   send_fails (resolve_channel failing_bot demo_event) \<and>
   fetchone
     \<lparr>rows = [(1, demo_event\<lparr>channel_id := Some 8, reminded := 1\<rparr>), (2, demo_event)],
      sqlite_sequence = 2\<rparr> 2 = Some demo_event \<and>
   rows demo_db = [] @ (1, demo_event) # [] \<and>
   Sent 1 \<in> set [Sent 1] \<and>
   fetchone \<lparr>rows = [(1, demo_event\<lparr>reminded := 1\<rparr>)], sqlite_sequence = 1\<rparr> 1
     = Some (demo_event\<lparr>reminded := 1\<rparr>)"
proof -
  have r: "reminded (demo_event\<lparr>channel_id := c\<rparr>) = 0" for c
    by (simp add: demo_event_def)
  have r0: "reminded demo_event = 0" by (simp add: demo_event_def)
  have d0: "due 1755689400000000 demo_event" using demo_due[of "Some 7"]
    by (simp add: demo_event_def)
  have s1: "rows demo_db2 = [] @ (1, demo_event\<lparr>channel_id := Some 8\<rparr>) # [(2, demo_event)]"
    by (simp add: demo_db2_def)
  have s2: "rows demo_db2 = [(1, demo_event\<lparr>channel_id := Some 8\<rparr>)] @ (2, demo_event) # []"
    by (simp add: demo_db2_def)
  have s3: "rows demo_db = [] @ (1, demo_event) # []" by (simp add: demo_db_def)
  have e: "list_all (\<lambda>(j, r). \<not> blocks 1755689400000000 failing_bot r) []" by simp
  have e': "list_all (\<lambda>(j, r). \<not> blocks 1755689400000000 demo_bot r) []" by simp
  have u: "list_all (\<lambda>(j, r). \<not> blocks 1755689400000000 failing_bot r)
     [(1, demo_event\<lparr>channel_id := Some 8\<rparr>)]"
    by (simp add: blocks_def pass_eval)
  have m1: "\<not> is_messageable (resolve_channel failing_bot (demo_event\<lparr>channel_id := Some 8\<rparr>))"
    by (simp add: pass_eval)
  have m2: "is_messageable (resolve_channel failing_bot demo_event) \<and>
      \<not> fmt_dt_local_raises (event_time_utc demo_event) \<and>
      send_fails (resolve_channel failing_bot demo_event)"
    by (simp add: pass_eval)
  have m3: "is_messageable (resolve_channel demo_bot demo_event) \<and>
      \<not> fmt_dt_local_raises (event_time_utc demo_event) \<and>
      \<not> send_fails (resolve_channel demo_bot demo_event)"
    by (simp add: pass_eval)
  note a = marked_when_reached
    [OF demo_db2_wf s1 r demo_due e demo_pass_skips_then_raises,
     of "[(1755689430000000, demo_bot)]"]
  note b = marked_when_reached [OF demo_db2_wf s2 r0 d0 u demo_pass_skips_then_raises]
  note c = marked_when_reached [OF demo_db_wf s3 r0 d0 e' demo_pass_delivers]
  show ?thesis using demo_db2_wf s1 s2 s3 u m1 m2 m3 a b c by simp
qed

text \<open>
  Claim C7 as stated fails when the send raises: the sample event, whose threshold is
  crossed, is not marked by the pass, and the next pass tries it again.
\<close>

theorem raised_send_leaves_unmarked:
  "due 1755689400000000 demo_event \<and>
   reminder_loop 1755689400000000 failing_bot demo_db = ([SendRaised 1], demo_db, True) \<and>
   fetchone demo_db 1 = Some demo_event \<and> reminded demo_event = 0 \<and>
   fst (reminder_loop 1755689430000000 failing_bot demo_db) = [SendRaised 1]"
proof -
  have p: "reminder_loop 1755689430000000 failing_bot demo_db = ([SendRaised 1], demo_db, True)"
    by (simp add: pass_eval)
  have d: "due 1755689400000000 demo_event" using demo_due[of "Some 7"]
    by (simp add: demo_event_def)
  show ?thesis
    using p d by (simp add: demo_pass_raises fetchone_demo_db) (simp add: demo_event_def)
qed


section \<open>The stored list of names\<close>

text \<open>
  Claim C10, as the code has it. Reading back a stored list gives the list itself exactly
  when every entry is non-empty, has no comma and has no leading or trailing whitespace.
  In general every entry is replaced by its own comma-separated pieces, trimmed, the blank
  ones dropped: no entry that is read back contains a comma, and a name with a comma comes
  back as no entry, one entry or several.
\<close>

theorem names_roundtrip:
  "(names_to_list (Some (list_to_names l)) = l \<longleftrightarrow> list_all clean_name l) \<and>
   names_to_list (Some (list_to_names l)) = concat (map (\<lambda>n. names_to_list (Some n)) l) \<and>
   list_all (\<lambda>x. 44 \<notin> set x) (names_to_list (Some (list_to_names l)))"
proof (intro conjI iffI)
  assume "names_to_list (Some (list_to_names l)) = l"
  then have "\<forall>x \<in> set l. clean_name x" using names_to_list_entries by metis
  then show "list_all clean_name l" by (simp add: list_all_iff)
next
  assume "list_all clean_name l"
  then show "names_to_list (Some (list_to_names l)) = l" by (rule reread_clean)
next
  show "names_to_list (Some (list_to_names l)) = concat (map (\<lambda>n. names_to_list (Some n)) l)"
    by (rule names_to_list_join)
next
  show "list_all (\<lambda>x. 44 \<notin> set x) (names_to_list (Some (list_to_names l)))"
    using names_to_list_entries by (auto simp: list_all_iff clean_name_def plain_name_def)
qed

text \<open>The list of Alice and Bob Lee is read back as it was stored.\<close>

theorem names_roundtrip_witness:
  "list_all clean_name [ustr ''Alice'', ustr ''Bob Lee''] \<and>
   names_to_list (Some (list_to_names [ustr ''Alice'', ustr ''Bob Lee'']))
     = [ustr ''Alice'', ustr ''Bob Lee'']"
  using names_roundtrip [of "[ustr ''Alice'', ustr ''Bob Lee'']"]
  by (simp add: clean_name_def plain_name_def trimmed_def isspace_def ustr_def)

text \<open>
  Claim C10 as stated fails for a name that ends in a comma: it contains a comma, and it is
  read back as one entry, not as several.
\<close>

theorem comma_name_single_entry:
  "44 \<in> set (ustr ''a,'') \<and>
   names_to_list (Some (list_to_names [ustr ''a,''])) = [ustr ''a'']"
  by (simp add: names_to_list_Some list_to_names_def py_strip_def isspace_def ustr_def)

end
